theory Spec2Isabelle
  imports Main
begin

section \<open>Library functions the lexer calls\<close>

text \<open>
  Go strings are byte sequences and \<open>len\<close> counts bytes, so a Go string is a
  \<open>string\<close> (a list of 8-bit \<open>char\<close>s). Go's \<open>int\<close> and \<open>rune\<close> are modelled as
  \<open>int\<close>: every offset the lexer computes lies within a few bytes of \<open>len(input)\<close>, so
  the 64-bit wrap-around is never reached.
\<close>

type_synonym rune = int

definition RuneError :: rune where
  "RuneError = 65533"

definition RuneSelf :: rune where
  "RuneSelf = 128"

definition byte :: "char \<Rightarrow> nat" where
  "byte c = of_char c"

text \<open>
  \<open>utf8.DecodeRuneInString\<close> of the Go standard library (package \<open>unicode/utf8\<close>), which
  \<open>Next\<close> calls. It is not part of the repository; the definition follows the library:
  the empty string gives \<open>(RuneError, 0)\<close>, an invalid or truncated encoding gives
  \<open>(RuneError, 1)\<close>, and a valid encoding gives the code point and its width 1..4.

  The library looks the first byte up in its table \<open>first\<close>, whose entry holds the
  length of the encoding and the index of an accept range for the second byte. The three
  functions below are that table for the lead bytes C2..F4 of multi-byte encodings: C2..DF
  announce 2 bytes, E0..EF 3 bytes, F0..F4 4 bytes, and the second byte must lie in
  80..BF, except after E0 (A0..BF), ED (80..9F), F0 (90..BF) and F4 (80..8F).
\<close>

definition lead_size :: "nat \<Rightarrow> nat" where
  "lead_size s0 = (if s0 < 224 then 2 else if s0 < 240 then 3 else 4)"

definition accept_lo :: "nat \<Rightarrow> nat" where
  "accept_lo s0 = (if s0 = 224 then 160 else if s0 = 240 then 144 else 128)"

definition accept_hi :: "nat \<Rightarrow> nat" where
  "accept_hi s0 = (if s0 = 237 then 159 else if s0 = 244 then 143 else 191)"

definition DecodeRuneInString :: "string \<Rightarrow> rune \<times> int" where
  "DecodeRuneInString s =
     (if length s < 1 then (RuneError, 0)
      else
        let s0 = byte (s ! 0) in
        if s0 < 128 then (int s0, 1)
        else if s0 < 194 \<or> 244 < s0 then (RuneError, 1)
        else if length s < lead_size s0 then (RuneError, 1)
        else
          let s1 = byte (s ! 1) in
          if s1 < accept_lo s0 \<or> accept_hi s0 < s1 then (RuneError, 1)
          else if lead_size s0 \<le> 2 then (int ((s0 mod 32) * 64 + s1 mod 64), 2)
          else
            let s2 = byte (s ! 2) in
            if s2 < 128 \<or> 191 < s2 then (RuneError, 1)
            else if lead_size s0 \<le> 3 then
              (int ((s0 mod 16) * 4096 + (s1 mod 64) * 64 + s2 mod 64), 3)
            else
              let s3 = byte (s ! 3) in
              if s3 < 128 \<or> 191 < s3 then (RuneError, 1)
              else
                (int ((s0 mod 8) * 262144 + (s1 mod 64) * 4096
                      + (s2 mod 64) * 64 + s3 mod 64), 4))"

lemma lead_size_bounds: "2 \<le> lead_size b" "lead_size b \<le> 4"
  by (simp_all add: lead_size_def)

lemma decode_width_pos: "s \<noteq> [] \<Longrightarrow> 1 \<le> snd (DecodeRuneInString s)"
  by (cases s) (auto simp: DecodeRuneInString_def Let_def)

lemma decode_width_le: "snd (DecodeRuneInString s) \<le> int (length s)"
  using lead_size_bounds [of "byte (s ! 0)"]
  by (cases s) (auto simp: DecodeRuneInString_def Let_def Suc_le_eq)

lemma decode_width_le4: "snd (DecodeRuneInString s) \<le> 4"
  by (auto simp: DecodeRuneInString_def Let_def)

lemma decode_width_nonneg: "0 \<le> snd (DecodeRuneInString s)"
  by (auto simp: DecodeRuneInString_def Let_def)

text \<open>
  \<open>utf8.ValidRune\<close> and \<open>utf8.EncodeRune\<close> (as \<open>string(r)\<close> for a valid rune), used by
  \<open>strings.IndexRune\<close>.
\<close>

definition ValidRune :: "rune \<Rightarrow> bool" where
  "ValidRune r \<longleftrightarrow> (0 \<le> r \<and> r < 55296) \<or> (57343 < r \<and> r \<le> 1114111)"

definition chr :: "int \<Rightarrow> char" where
  "chr n = char_of (nat n)"

definition EncodeRune :: "rune \<Rightarrow> string" where
  "EncodeRune r =
     (if r < 128 then [chr r]
      else if r < 2048 then [chr (192 + r div 64), chr (128 + r mod 64)]
      else if r < 65536 then
        [chr (224 + r div 4096), chr (128 + (r div 64) mod 64), chr (128 + r mod 64)]
      else
        [chr (240 + r div 262144), chr (128 + (r div 4096) mod 64),
         chr (128 + (r div 64) mod 64), chr (128 + r mod 64)])"

text \<open>\<open>strings.IndexByte\<close>: the index of the first byte equal to \<open>c\<close>, or -1.\<close>

fun IndexByte :: "string \<Rightarrow> char \<Rightarrow> int" where
  "IndexByte [] c = -1"
| "IndexByte (x # xs) c =
     (if x = c then 0 else let i = IndexByte xs c in if i < 0 then -1 else i + 1)"

text \<open>\<open>strings.Index\<close>: the index of the first occurrence of \<open>sub\<close> in \<open>s\<close>, or -1.\<close>

fun Index :: "string \<Rightarrow> string \<Rightarrow> int" where
  "Index [] sub = (if sub = [] then 0 else -1)"
| "Index (x # xs) sub =
     (if take (length sub) (x # xs) = sub then 0
      else let i = Index xs sub in if i < 0 then -1 else i + 1)"

text \<open>
  The loop \<open>for i, r := range s { if r == utf8.RuneError { return i } }\<close> of
  \<open>strings.IndexRune\<close>: the offset of the first place where decoding \<open>s\<close> rune by rune
  yields \<open>RuneError\<close>, or -1.
\<close>

function IndexRuneError :: "string \<Rightarrow> int" where
  "IndexRuneError s =
     (if s = [] then -1
      else
        let (r, w) = DecodeRuneInString s in
        if r = RuneError then 0
        else let i = IndexRuneError (drop (nat w) s) in if i < 0 then -1 else i + w)"
  by pat_completeness auto
termination
proof (relation "measure length")
  show "wf (measure length)" by simp
next
  fix s :: string and x :: "rune \<times> int" and r w
  assume "s \<noteq> []" and "x = DecodeRuneInString s" and "(r, w) = x"
  then have "1 \<le> w"
    using decode_width_pos [of s] by (metis snd_conv)
  with \<open>s \<noteq> []\<close> show "(drop (nat w) s, s) \<in> measure length"
    by simp
qed

text \<open>
  \<open>strings.IndexRune(s, r)\<close> of the Go standard library: the index of the first
  instance of the code point \<open>r\<close> in \<open>s\<close>, or -1. An ASCII rune is searched as a byte,
  \<open>RuneError\<close> matches the first invalid byte sequence (or an encoded U+FFFD), any other
  invalid rune (such as the lexer's \<open>EOF = -1\<close>) is never found, and every other rune is
  searched by its UTF-8 encoding.
\<close>

definition IndexRune :: "string \<Rightarrow> rune \<Rightarrow> int" where
  "IndexRune s r =
     (if 0 \<le> r \<and> r < RuneSelf then IndexByte s (chr r)
      else if r = RuneError then IndexRuneError s
      else if \<not> ValidRune r then -1
      else Index s (EncodeRune r))"

text \<open>
  The truncation that \<open>fmt\<close> applies to a string operand under a precision
  (\<open>%.10q\<close>): the operand is cut after its first \<open>n\<close> runes, counted by decoding.
\<close>

function truncateString :: "nat \<Rightarrow> string \<Rightarrow> string" where
  "truncateString n s =
     (if s = [] \<or> n = 0 then []
      else
        let (r, w) = DecodeRuneInString s in
        take (nat w) s @ truncateString (n - 1) (drop (nat w) s))"
  by pat_completeness auto
termination
proof (relation "measure (\<lambda>(n, s). length s)")
  show "wf (measure (\<lambda>(n, s). length s))" by simp
next
  fix n :: nat and s :: string and x :: "rune \<times> int" and r w
  assume "\<not> (s = [] \<or> n = 0)" and "x = DecodeRuneInString s" and "(r, w) = x"
  then have "1 \<le> w" and "s \<noteq> []"
    using decode_width_pos [of s] by (metis snd_conv, simp)
  then show "((n - 1, drop (nat w) s), (n, s)) \<in> measure (\<lambda>(n, s). length s)"
    by simp
qed

section \<open>Tokens\<close>

type_synonym TokenType = int

definition TokenError :: TokenType where
  "TokenError = -2"

definition TokenEOF :: TokenType where
  "TokenEOF = -1"

record Token =
  Typ :: TokenType
  Val :: string
  Pos :: int

definition EOF :: rune where
  "EOF = -1"

text \<open>
  \<open>Token.String\<close>. The verb \<open>%q\<close> is \<open>strconv.Quote\<close>, taken as the parameter
  \<open>quote\<close>; under \<open>%.10q\<close> the operand is first cut to 10 runes.
\<close>

definition String :: "(string \<Rightarrow> string) \<Rightarrow> Token \<Rightarrow> string" where
  "String quote i =
     (if Typ i = TokenEOF then ''EOF''
      else if Typ i = TokenError then Val i
      else if length (Val i) > 10 then quote (truncateString 10 (Val i)) @ ''...''
      else quote (Val i))"

section \<open>The lexer\<close>

text \<open>
  A \<open>StateFn\<close> is a Go function value. The grammar is the caller's code, so a state
  function is named by a value of a type \<open>'q\<close> of the caller's choice and a grammar maps
  each name to its body; \<open>nil\<close> is \<open>None\<close>. A body returns the next state and the
  updated lexer, or the error that stopped it.

  Runtime failures are values: a slice expression out of range panics, calling a nil
  function panics, and a send on the full token channel blocks: the sender waits, in
  the middle of its state function, until a token is received.
\<close>

datatype error = SliceOutOfRange | NilStateFn | SendBlocked

record 'q Lexer =
  name :: string
  input :: string
  state :: "'q option"
  Start :: int
  Pos :: int
  lastPos :: int
  Width :: int
  tokens :: "Token list"

type_synonym 'q StateFn = "'q Lexer \<Rightarrow> error + ('q option \<times> 'q Lexer)"

type_synonym 'q grammar = "'q \<Rightarrow> 'q StateFn"

text \<open>
  \<open>NewLexer\<close> builds the lexer, starts \<open>run\<close> on it with \<open>go l.run()\<close> and
  returns it. The channel of capacity 2 is the list \<open>tokens\<close>, oldest first. From
  then on two drivers work on the one lexer: the background task, which executes
  \<open>run\<close>, and the consumer, which calls \<open>NextToken\<close>. The task is part of what
  \<open>NewLexer\<close> creates, so the result is the lexer together with the control point of
  the task: \<open>Starting\<close> before \<open>run\<close> has read \<open>l.state\<close> into its local
  variable \<open>state\<close>, \<open>Looping q\<close> when that variable holds the state function \<open>q\<close>
  and the body of the loop is about to call it, \<open>Ended\<close> when the loop is over.
\<close>

datatype 'q task = Starting | Looping 'q | Ended

record 'q Scan =
  lexer :: "'q Lexer"
  task :: "'q task"

definition NewLexer :: "string \<Rightarrow> string \<Rightarrow> 'q option \<Rightarrow> 'q Scan" where
  "NewLexer nm inp startState =
     \<lparr>lexer = \<lparr>name = nm, input = inp, state = startState, Start = 0, Pos = 0, lastPos = 0,
               Width = 0, tokens = []\<rparr>,
      task = Starting\<rparr>"

text \<open>The slice expression \<open>s[a:b]\<close>, defined when \<open>0 \<le> a \<le> b \<le> len(s)\<close>.\<close>

definition slice_ok :: "string \<Rightarrow> int \<Rightarrow> int \<Rightarrow> bool" where
  "slice_ok s a b \<longleftrightarrow> 0 \<le> a \<and> a \<le> b \<and> b \<le> int (length s)"

definition slice :: "string \<Rightarrow> int \<Rightarrow> int \<Rightarrow> string" where
  "slice s a b = take (nat (b - a)) (drop (nat a) s)"

definition chan_cap :: nat where
  "chan_cap = 2"

definition send :: "Token \<Rightarrow> 'q Lexer \<Rightarrow> error + 'q Lexer" where
  "send t l =
     (if length (tokens l) < chan_cap then Inr (l\<lparr>tokens := tokens l @ [t]\<rparr>)
      else Inl SendBlocked)"

definition Emit :: "TokenType \<Rightarrow> 'q Lexer \<Rightarrow> error + 'q Lexer" where
  "Emit t l =
     (if \<not> slice_ok (input l) (Start l) (Lexer.Pos l) then Inl SliceOutOfRange
      else
        case send \<lparr>Typ = t, Val = slice (input l) (Start l) (Lexer.Pos l), Pos = Start l\<rparr> l of
          Inl e \<Rightarrow> Inl e
        | Inr l' \<Rightarrow> Inr (l'\<lparr>Start := Lexer.Pos l'\<rparr>))"

definition Next :: "'q Lexer \<Rightarrow> error + (rune \<times> 'q Lexer)" where
  "Next l =
     (if Lexer.Pos l \<ge> int (length (input l)) then Inr (EOF, l\<lparr>Width := 0\<rparr>)
      else if Lexer.Pos l < 0 then Inl SliceOutOfRange
      else
        let (r, w) = DecodeRuneInString (drop (nat (Lexer.Pos l)) (input l)) in
        Inr (r, l\<lparr>Width := w, Pos := Lexer.Pos l + w\<rparr>))"

definition Ignore :: "'q Lexer \<Rightarrow> 'q Lexer" where
  "Ignore l = l\<lparr>Start := Lexer.Pos l\<rparr>"

definition Backup :: "'q Lexer \<Rightarrow> 'q Lexer" where
  "Backup l = l\<lparr>Pos := Lexer.Pos l - Width l\<rparr>"

definition Peek :: "'q Lexer \<Rightarrow> error + (rune \<times> 'q Lexer)" where
  "Peek l = (case Next l of Inl e \<Rightarrow> Inl e | Inr (r, l') \<Rightarrow> Inr (r, Backup l'))"

definition Accept :: "string \<Rightarrow> 'q Lexer \<Rightarrow> error + (bool \<times> 'q Lexer)" where
  "Accept valid l =
     (case Next l of
        Inl e \<Rightarrow> Inl e
      | Inr (r, l') \<Rightarrow>
          if IndexRune valid r \<ge> 0 then Inr (True, l') else Inr (False, Backup l'))"

lemma IndexRune_EOF: "IndexRune valid EOF = -1"
  by (simp add: IndexRune_def EOF_def RuneError_def ValidRune_def)

lemma Next_advances:
  assumes "Next l = Inr (r, l')" and "r \<noteq> EOF"
  shows "input l' = input l" and "Lexer.Pos l < Lexer.Pos l'"
    and "Lexer.Pos l < int (length (input l))"
proof -
  let ?d = "DecodeRuneInString (drop (nat (Lexer.Pos l)) (input l))"
  from assms have in_range: "0 \<le> Lexer.Pos l" "Lexer.Pos l < int (length (input l))"
    by (auto simp: Next_def split: if_splits)
  with assms(1) have l': "l' = l\<lparr>Width := snd ?d, Pos := Lexer.Pos l + snd ?d\<rparr>"
    by (auto simp: Next_def split: prod.splits)
  from in_range have "drop (nat (Lexer.Pos l)) (input l) \<noteq> []"
    by simp
  then have "1 \<le> snd ?d"
    by (rule decode_width_pos)
  with l' in_range show "input l' = input l" and "Lexer.Pos l < Lexer.Pos l'"
    and "Lexer.Pos l < int (length (input l))"
    by simp_all
qed

text \<open>The loop of \<open>AcceptRun\<close>, and \<open>AcceptRun\<close> itself: the loop, then \<open>Backup\<close>.\<close>

function AcceptRun_loop :: "string \<Rightarrow> 'q Lexer \<Rightarrow> error + 'q Lexer" where
  "AcceptRun_loop valid l =
     (case Next l of
        Inl e \<Rightarrow> Inl e
      | Inr (r, l') \<Rightarrow> if IndexRune valid r \<ge> 0 then AcceptRun_loop valid l' else Inr l')"
  by pat_completeness auto
termination
proof (relation "measure (\<lambda>(valid, l). nat (int (length (input l)) - Lexer.Pos l))")
  show "wf (measure (\<lambda>(valid, l). nat (int (length (input l)) - Lexer.Pos l)))"
    by simp
next
  fix valid :: string and l l' :: "'q Lexer" and x r
  assume "Next l = Inr x" and "(r, l') = x" and "0 \<le> IndexRune valid r"
  then have "Next l = Inr (r, l')" and "r \<noteq> EOF"
    using IndexRune_EOF [of valid] by auto
  from Next_advances [OF this]
  show "((valid, l'), (valid, l))
          \<in> measure (\<lambda>(valid, l). nat (int (length (input l)) - Lexer.Pos l))"
    by simp
qed

definition AcceptRun :: "string \<Rightarrow> 'q Lexer \<Rightarrow> error + 'q Lexer" where
  "AcceptRun valid l =
     (case AcceptRun_loop valid l of Inl e \<Rightarrow> Inl e | Inr l' \<Rightarrow> Inr (Backup l'))"

text \<open>
  \<open>Errorf\<close>. \<open>fmt.Sprintf\<close> is the parameter \<open>Sprintf\<close>. The result is the next
  state \<open>nil\<close>, so a state function ends the scan with \<open>return l.Errorf(...)\<close>.
\<close>

definition Errorf ::
  "('f \<Rightarrow> 'a \<Rightarrow> string) \<Rightarrow> 'f \<Rightarrow> 'a \<Rightarrow> 'q Lexer \<Rightarrow> error + ('q option \<times> 'q Lexer)" where
  "Errorf Sprintf format args l =
     (case send \<lparr>Typ = TokenError, Val = Sprintf format args, Pos = Start l\<rparr> l of
        Inl e \<Rightarrow> Inl e
      | Inr l' \<Rightarrow> Inr (None, l'))"

text \<open>
  \<open>run\<close>: the loop \<open>for state := l.state; state != nil; { state = state(l) }\<close>. A
  grammar need not reach \<open>nil\<close>, so the loop is a partial function: \<open>None\<close> is a loop
  that never ends.
\<close>

partial_function (option) run_loop ::
  "'q grammar \<Rightarrow> 'q option \<Rightarrow> 'q Lexer \<Rightarrow> (error + 'q Lexer) option" where
  "run_loop g st l =
     (case st of
        None \<Rightarrow> Some (Inr l)
      | Some q \<Rightarrow>
          (case g q l of
             Inl e \<Rightarrow> Some (Inl e)
           | Inr (st', l') \<Rightarrow> run_loop g st' l'))"

definition run :: "'q grammar \<Rightarrow> 'q Lexer \<Rightarrow> (error + 'q Lexer) option" where
  "run g l = run_loop g (state l) l"

text \<open>
  One step of the background task, so that the steps of the two drivers can alternate.
  The first step is the initialisation \<open>state := l.state\<close> with the test
  \<open>state != nil\<close>; every later step is one pass of the loop: the call \<open>state(l)\<close>, the
  assignment of its result to the local variable, and the test. No step assigns to
  \<open>l.state\<close>: \<open>run\<close> keeps the state it is in to itself.
\<close>

definition loop_test :: "'q option \<Rightarrow> 'q task" where
  "loop_test st = (case st of None \<Rightarrow> Ended | Some q \<Rightarrow> Looping q)"

definition run_step :: "'q grammar \<Rightarrow> 'q Scan \<Rightarrow> error + 'q Scan" where
  "run_step g p =
     (case task p of
        Starting \<Rightarrow> Inr (p\<lparr>task := loop_test (state (lexer p))\<rparr>)
      | Looping q \<Rightarrow>
          (case g q (lexer p) of
             Inl e \<Rightarrow> Inl e
           | Inr (st, l') \<Rightarrow> Inr \<lparr>lexer = l', task = loop_test st\<rparr>)
      | Ended \<Rightarrow> Inr p)"

text \<open>
  \<open>NextToken\<close>: the \<open>select\<close> receives the oldest buffered token if there is one;
  otherwise its \<open>default\<close> branch calls the state function in \<open>l.state\<close> (a panic
  when that is \<open>nil\<close>), stores the state it returns, and the loop goes round again.
\<close>

partial_function (option) NextToken ::
  "'q grammar \<Rightarrow> 'q Lexer \<Rightarrow> (error + Token \<times> 'q Lexer) option" where
  "NextToken g l =
     (case tokens l of
        token # rest \<Rightarrow> Some (Inr (token, l\<lparr>tokens := rest, lastPos := Token.Pos token\<rparr>))
      | [] \<Rightarrow>
          (case state l of
             None \<Rightarrow> Some (Inl NilStateFn)
           | Some q \<Rightarrow>
               (case g q l of
                  Inl e \<Rightarrow> Some (Inl e)
                | Inr (st, l') \<Rightarrow> NextToken g (l'\<lparr>state := st\<rparr>))))"

text \<open>
  One pass of the loop of \<open>NextToken\<close>: it receives a token, which the call then
  returns, or it runs the state function and goes round.
\<close>

definition NextToken_pass ::
  "'q grammar \<Rightarrow> 'q Lexer \<Rightarrow> error + (Token option \<times> 'q Lexer)" where
  "NextToken_pass g l =
     (case tokens l of
        token # rest \<Rightarrow> Inr (Some token, l\<lparr>tokens := rest, lastPos := Token.Pos token\<rparr>)
      | [] \<Rightarrow>
          (case state l of
             None \<Rightarrow> Inl NilStateFn
           | Some q \<Rightarrow>
               (case g q l of
                  Inl e \<Rightarrow> Inl e
                | Inr (st, l') \<Rightarrow> Inr (None, l'\<lparr>state := st\<rparr>))))"

declare run_loop.simps [code] NextToken.simps [code]

text \<open>What \<open>utf8.DecodeRuneInString(l.input[l.Pos:])\<close> returns at the scan offset.\<close>

definition decode_at :: "'q Lexer \<Rightarrow> rune \<times> int" where
  "decode_at l = DecodeRuneInString (drop (nat (Lexer.Pos l)) (input l))"

text \<open>\<open>n\<close> consecutive calls of \<open>Peek\<close>, collecting the runes returned.\<close>

fun Peeks :: "nat \<Rightarrow> 'q Lexer \<Rightarrow> error + (rune list \<times> 'q Lexer)" where
  "Peeks 0 l = Inr ([], l)"
| "Peeks (Suc n) l =
     (case Peek l of
        Inl e \<Rightarrow> Inl e
      | Inr (r, l') \<Rightarrow>
          (case Peeks n l' of Inl e \<Rightarrow> Inl e | Inr (rs, l'') \<Rightarrow> Inr (r # rs, l'')))"

text \<open>
  The runes of a string, as the loop \<open>for _, r := range s\<close> yields them: decoded one
  after the other, an invalid byte counting as one \<open>RuneError\<close>.
\<close>

function runes :: "string \<Rightarrow> rune list" where
  "runes s =
     (if s = [] then []
      else let (r, w) = DecodeRuneInString s in r # runes (drop (nat w) s))"
  by pat_completeness auto
termination
proof (relation "measure length")
  show "wf (measure length)" by simp
next
  fix s :: string and x :: "rune \<times> int" and r w
  assume "s \<noteq> []" and "x = DecodeRuneInString s" and "(r, w) = x"
  then have "1 \<le> w"
    using decode_width_pos [of s] by (metis snd_conv)
  with \<open>s \<noteq> []\<close> show "(drop (nat w) s, s) \<in> measure length"
    by simp
qed

section \<open>Grammars as sequences of calls\<close>

text \<open>
  A state function is the caller's code. It acts on the lexer through the exported
  methods (the specification gives it the fields \<open>Pos\<close> and \<open>Width\<close> to read, not
  to assign), so what one invocation does to the lexer is the effect of a finite
  sequence of calls. \<open>op\<close> names the calls (the message of \<open>Errorf\<close> already
  formatted) and \<open>calls\<close> runs a sequence of them, stopping at the first one that
  fails.
\<close>

datatype op =
    OpNext | OpBackup | OpPeek | OpAccept string | OpAcceptRun string
  | OpIgnore | OpEmit TokenType | OpErrorf string

fun call :: "op \<Rightarrow> 'q Lexer \<Rightarrow> error + 'q Lexer" where
  "call OpNext l = (case Next l of Inl e \<Rightarrow> Inl e | Inr (r, l') \<Rightarrow> Inr l')"
| "call OpBackup l = Inr (Backup l)"
| "call OpPeek l = (case Peek l of Inl e \<Rightarrow> Inl e | Inr (r, l') \<Rightarrow> Inr l')"
| "call (OpAccept valid) l =
     (case Accept valid l of Inl e \<Rightarrow> Inl e | Inr (b, l') \<Rightarrow> Inr l')"
| "call (OpAcceptRun valid) l = AcceptRun valid l"
| "call OpIgnore l = Inr (Ignore l)"
| "call (OpEmit t) l = Emit t l"
| "call (OpErrorf msg) l =
     (case Errorf (\<lambda>format args. format) msg () l of
        Inl e \<Rightarrow> Inl e
      | Inr (st, l') \<Rightarrow> Inr l')"

fun calls :: "op list \<Rightarrow> 'q Lexer \<Rightarrow> error + 'q Lexer" where
  "calls [] l = Inr l"
| "calls (c # cs) l = (case call c l of Inl e \<Rightarrow> Inl e | Inr l' \<Rightarrow> calls cs l')"

text \<open>
  \<open>calls_only ok g\<close>: whenever a state function of the grammar \<open>g\<close> returns, what it did
  to the lexer is the effect of a sequence of calls that \<open>ok\<close> accepts.
\<close>

definition calls_only :: "(op list \<Rightarrow> bool) \<Rightarrow> 'q grammar \<Rightarrow> bool" where
  "calls_only ok g \<longleftrightarrow>
     (\<forall>q l st l'. g q l = Inr (st, l') \<longrightarrow> (\<exists>cs. ok cs \<and> calls cs l = Inr l'))"

text \<open>
  The backtracking protocol: \<open>Backup\<close> is called only directly after a \<open>Next\<close>. The
  flag tells whether the call before was a \<open>Next\<close>.
\<close>

fun permitted :: "bool \<Rightarrow> op list \<Rightarrow> bool" where
  "permitted b [] = True"
| "permitted b (OpBackup # cs) = (b \<and> permitted False cs)"
| "permitted b (OpNext # cs) = permitted True cs"
| "permitted b (c # cs) = permitted False cs"

text \<open>The calls of a grammar that neither drops text nor reports an error.\<close>

fun keeps_text :: "op \<Rightarrow> bool" where
  "keeps_text OpIgnore = False"
| "keeps_text (OpErrorf msg) = False"
| "keeps_text c = True"


definition text_of :: "Token list \<Rightarrow> string" where
  "text_of ts = concat (map Val ts)"

text \<open>
  The cursor invariant of the specification, with the lower bound that the slice
  expressions need.
\<close>

definition cursor_ok :: "'q Lexer \<Rightarrow> bool" where
  "cursor_ok l \<longleftrightarrow>
     0 \<le> Start l \<and> Start l \<le> Lexer.Pos l \<and> Lexer.Pos l \<le> int (length (input l))"


text \<open>
  \<open>n\<close> consecutive calls of \<open>NextToken\<close>, collecting the tokens returned; the first
  call that fails or never returns ends the sequence.
\<close>

fun NextTokens ::
  "nat \<Rightarrow> 'q grammar \<Rightarrow> 'q Lexer \<Rightarrow> (error + Token list \<times> 'q Lexer) option" where
  "NextTokens 0 g l = Some (Inr ([], l))"
| "NextTokens (Suc n) g l =
     (case NextToken g l of
        None \<Rightarrow> None
      | Some (Inl e) \<Rightarrow> Some (Inl e)
      | Some (Inr (t, l')) \<Rightarrow>
          (case NextTokens n g l' of
             None \<Rightarrow> None
           | Some (Inl e) \<Rightarrow> Some (Inl e)
           | Some (Inr (ts, l'')) \<Rightarrow> Some (Inr (t # ts, l''))))"

section \<open>Scans\<close>

text \<open>
  A scan is what the two drivers do to the lexer that \<open>NewLexer\<close> returned. A
  schedule says whose move is next: a move of the background task is one step of
  \<open>run\<close>, a move of the consumer is one pass of the loop of \<open>NextToken\<close>. \<open>scan\<close>
  follows a schedule and collects the tokens the consumer receives, in the order of
  delivery.

  Each move is carried out whole, so the schedules are the executions in which an
  invocation of a state function is over before the other driver moves. The code does
  not confine the drivers to these: both call state functions on the one lexer with
  nothing to keep one from starting in the middle of the other. Such executions are
  not schedules, and a statement about all schedules says nothing of them. A move
  that would block in a send ends the scan with \<open>SendBlocked\<close>: the schedule is not
  followed beyond it.
\<close>

datatype driver = Background | Consumer

fun scan :: "'q grammar \<Rightarrow> driver list \<Rightarrow> 'q Scan \<Rightarrow> error + (Token list \<times> 'q Scan)" where
  "scan g [] p = Inr ([], p)"
| "scan g (Background # ds) p =
     (case run_step g p of Inl e \<Rightarrow> Inl e | Inr p' \<Rightarrow> scan g ds p')"
| "scan g (Consumer # ds) p =
     (case NextToken_pass g (lexer p) of
        Inl e \<Rightarrow> Inl e
      | Inr (received, l') \<Rightarrow>
          (case scan g ds (p\<lparr>lexer := l'\<rparr>) of
             Inl e \<Rightarrow> Inl e
           | Inr (ts, p') \<Rightarrow>
               Inr ((case received of None \<Rightarrow> ts | Some t \<Rightarrow> t # ts), p')))"

text \<open>
  \<open>Emit\<close> is two statements, the send and the assignment \<open>l.Start = l.Pos\<close>.
  \<open>Emit_send\<close> is the first of them, for the executions in which the other driver
  moves between the two.
\<close>

definition Emit_send :: "TokenType \<Rightarrow> 'q Lexer \<Rightarrow> error + 'q Lexer" where
  "Emit_send t l =
     (if \<not> slice_ok (input l) (Start l) (Lexer.Pos l) then Inl SliceOutOfRange
      else send \<lparr>Typ = t, Val = slice (input l) (Start l) (Lexer.Pos l), Pos = Start l\<rparr> l)"

section \<open>Example grammars\<close>

text \<open>
  The grammar of the specification's scenario, one state function that returns itself:
  a run of digits is a token of type 1, any other character a token of type 2, and the
  end of the input the end-of-input token, after which the next state is \<open>nil\<close>. A
  space is a token of type 3 when \<open>keep\<close> is set and is ignored otherwise.
\<close>

definition lexExpr :: "bool \<Rightarrow> unit \<Rightarrow> unit StateFn" where
  "lexExpr keep q l =
     (case Peek l of
        Inl e \<Rightarrow> Inl e
      | Inr (r, l1) \<Rightarrow>
          if r = EOF then
            (case Emit TokenEOF l1 of Inl e \<Rightarrow> Inl e | Inr l2 \<Rightarrow> Inr (None, l2))
          else if 0 \<le> IndexRune ''0123456789'' r then
            (case AcceptRun ''0123456789'' l1 of
               Inl e \<Rightarrow> Inl e
             | Inr l2 \<Rightarrow>
                 (case Emit 1 l2 of Inl e \<Rightarrow> Inl e | Inr l3 \<Rightarrow> Inr (Some q, l3)))
          else
            (case Next l1 of
               Inl e \<Rightarrow> Inl e
             | Inr (r', l2) \<Rightarrow>
                 if r = 32 \<and> \<not> keep then Inr (Some q, Ignore l2)
                 else
                   (case Emit (if r = 32 then 3 else 2) l2 of
                      Inl e \<Rightarrow> Inl e
                    | Inr l3 \<Rightarrow> Inr (Some q, l3))))"

text \<open>
  The grammar of the specification's error scenario: letters form an identifier (type
  1), and any other character ends the scan with \<open>Errorf\<close>.
\<close>

definition letters :: string where
  "letters = ''abcdefghijklmnopqrstuvwxyz''"

definition lexIdent :: "(string \<Rightarrow> rune \<Rightarrow> string) \<Rightarrow> unit \<Rightarrow> unit StateFn" where
  "lexIdent Sprintf q l =
     (case Peek l of
        Inl e \<Rightarrow> Inl e
      | Inr (r, l1) \<Rightarrow>
          if r = EOF then
            (case Emit TokenEOF l1 of Inl e \<Rightarrow> Inl e | Inr l2 \<Rightarrow> Inr (None, l2))
          else if 0 \<le> IndexRune letters r then
            (case AcceptRun letters l1 of
               Inl e \<Rightarrow> Inl e
             | Inr l2 \<Rightarrow>
                 (case Emit 1 l2 of Inl e \<Rightarrow> Inl e | Inr l3 \<Rightarrow> Inr (Some q, l3)))
          else Errorf Sprintf ''unexpected character %q'' r l1)"

section \<open>What the decoder returns\<close>

text \<open>
  Every result of the decoder on a non-empty string is either the replacement rune with
  width 1, or a valid rune whose UTF-8 encoding is the bytes it covers.
\<close>

lemma mod_shift:
  fixes a :: nat
  assumes "q * n \<le> a" and "a < q * n + n"
  shows "a mod n = a - q * n"
proof -
  have "a = (a - q * n) + q * n"
    using assms(1) by simp
  then have "a mod n = ((a - q * n) + q * n) mod n"
    by simp
  also have "\<dots> = (a - q * n) mod n"
    by (rule mod_mult_self1)
  also have "\<dots> = a - q * n"
    using assms by (intro mod_less) simp
  finally show ?thesis .
qed

lemma digit:
  fixes q z n :: nat
  assumes "z < n"
  shows "(q * n + z) div n = q" and "(q * n + z) mod n = z"
  using assms by simp_all

lemma enc2_arith:
  fixes a b :: nat
  assumes "194 \<le> a" "a < 224" "128 \<le> b" "b \<le> 191"
  defines "r \<equiv> (a mod 32) * 64 + b mod 64"
  shows "128 \<le> r" "r < 2048" "192 + r div 64 = a" "128 + r mod 64 = b"
proof -
  define x y where "x = a - 192" and "y = b - 128"
  have a: "a mod 32 = x"
    unfolding x_def using assms(1,2) mod_shift [of 6 32 a] by simp
  have b: "b mod 64 = y"
    unfolding y_def using assms(3,4) mod_shift [of 2 64 b] by simp
  have bounds: "2 \<le> x" "x < 32" "y < 64"
    unfolding x_def y_def using assms(1-4) by simp_all
  have r: "r = x * 64 + y"
    unfolding r_def a b ..
  have "r div 64 = x" "r mod 64 = y"
    unfolding r using digit [OF bounds(3), of x] by simp_all
  then show "192 + r div 64 = a" "128 + r mod 64 = b"
    unfolding x_def y_def using assms(1-4) by simp_all
  show "128 \<le> r" "r < 2048"
    unfolding r using bounds by simp_all
qed

lemma enc3_arith:
  fixes a b c :: nat
  assumes "224 \<le> a" "a < 240" "128 \<le> b" "b \<le> 191" "128 \<le> c" "c \<le> 191"
    and "a = 224 \<longrightarrow> 160 \<le> b" and "a = 237 \<longrightarrow> b \<le> 159"
  defines "r \<equiv> (a mod 16) * 4096 + (b mod 64) * 64 + c mod 64"
  shows "2048 \<le> r" "r < 65536" "r < 55296 \<or> 57343 < r"
    "224 + r div 4096 = a" "128 + (r div 64) mod 64 = b" "128 + r mod 64 = c"
proof -
  define x y z where "x = a - 224" and "y = b - 128" and "z = c - 128"
  have a: "a mod 16 = x"
    unfolding x_def using assms(1,2) mod_shift [of 14 16 a] by simp
  have b: "b mod 64 = y"
    unfolding y_def using assms(3,4) mod_shift [of 2 64 b] by simp
  have c: "c mod 64 = z"
    unfolding z_def using assms(5,6) mod_shift [of 2 64 c] by simp
  have bounds: "x < 16" "y < 64" "z < 64"
    unfolding x_def y_def z_def using assms(1-6) by simp_all
  have r: "r = x * 4096 + y * 64 + z"
    unfolding r_def a b c ..
  have r': "r = (x * 64 + y) * 64 + z"
    unfolding r by simp
  have d3: "r mod 64 = z" and q: "r div 64 = x * 64 + y"
    unfolding r' using digit [OF bounds(3), of "x * 64 + y"] by simp_all
  have d2: "(r div 64) mod 64 = y" and d1': "(r div 64) div 64 = x"
    unfolding q using digit [OF bounds(2), of x] by simp_all
  have "r div 4096 = (r div 64) div 64"
    by (simp add: div_mult2_eq)
  with d1' have d1: "r div 4096 = x"
    by simp
  show "224 + r div 4096 = a" "128 + (r div 64) mod 64 = b" "128 + r mod 64 = c"
    using d1 d2 d3 assms(1-6) unfolding x_def y_def z_def by simp_all
  have "a = 224 \<longrightarrow> 32 \<le> y" "a \<noteq> 224 \<longrightarrow> 1 \<le> x"
    unfolding x_def y_def using assms by auto
  then show "2048 \<le> r"
    unfolding r by (cases "a = 224") simp_all
  show "r < 65536"
    unfolding r using bounds by simp
  have "x < 13 \<or> (x = 13 \<and> y < 32) \<or> 13 < x"
    unfolding x_def y_def using assms by auto
  then show "r < 55296 \<or> 57343 < r"
    unfolding r using bounds by auto
qed

lemma enc4_arith:
  fixes a b c d :: nat
  assumes "240 \<le> a" "a \<le> 244" "128 \<le> b" "b \<le> 191" "128 \<le> c" "c \<le> 191"
    "128 \<le> d" "d \<le> 191"
    and "a = 240 \<longrightarrow> 144 \<le> b" and "a = 244 \<longrightarrow> b \<le> 143"
  defines "r \<equiv> (a mod 8) * 262144 + (b mod 64) * 4096 + (c mod 64) * 64 + d mod 64"
  shows "65536 \<le> r" "r \<le> 1114111"
    "240 + r div 262144 = a" "128 + (r div 4096) mod 64 = b"
    "128 + (r div 64) mod 64 = c" "128 + r mod 64 = d"
proof -
  define x y z u where "x = a - 240" and "y = b - 128" and "z = c - 128" and "u = d - 128"
  have a: "a mod 8 = x"
    unfolding x_def using assms(1,2) mod_shift [of 30 8 a] by simp
  have b: "b mod 64 = y"
    unfolding y_def using assms(3,4) mod_shift [of 2 64 b] by simp
  have c: "c mod 64 = z"
    unfolding z_def using assms(5,6) mod_shift [of 2 64 c] by simp
  have d: "d mod 64 = u"
    unfolding u_def using assms(7,8) mod_shift [of 2 64 d] by simp
  have bounds: "x \<le> 4" "y < 64" "z < 64" "u < 64"
    unfolding x_def y_def z_def u_def using assms(1-8) by simp_all
  have r: "r = x * 262144 + y * 4096 + z * 64 + u"
    unfolding r_def a b c d ..
  have r': "r = ((x * 64 + y) * 64 + z) * 64 + u"
    unfolding r by simp
  have d4: "r mod 64 = u" and q: "r div 64 = (x * 64 + y) * 64 + z"
    unfolding r' using digit [OF bounds(4), of "(x * 64 + y) * 64 + z"] by simp_all
  have d3: "(r div 64) mod 64 = z" and q2: "(r div 64) div 64 = x * 64 + y"
    unfolding q using digit [OF bounds(3), of "x * 64 + y"] by simp_all
  have d2': "((r div 64) div 64) mod 64 = y" and d1': "((r div 64) div 64) div 64 = x"
    unfolding q2 using digit [OF bounds(2), of x] by simp_all
  have e2: "r div 4096 = (r div 64) div 64"
    using div_mult2_eq [of r 64 64] by simp
  have e1: "r div 262144 = ((r div 64) div 64) div 64"
    using div_mult2_eq [of r 4096 64] e2 by simp
  have d1: "r div 262144 = x"
    unfolding e1 by (fact d1')
  have d2: "(r div 4096) mod 64 = y"
    unfolding e2 by (fact d2')
  show "240 + r div 262144 = a"
    unfolding d1 x_def using assms(1) by simp
  show "128 + (r div 4096) mod 64 = b"
    unfolding d2 y_def using assms(3) by simp
  show "128 + (r div 64) mod 64 = c"
    unfolding d3 z_def using assms(5) by simp
  show "128 + r mod 64 = d"
    unfolding d4 u_def using assms(7) by simp
  have "a = 240 \<longrightarrow> 16 \<le> y" "a \<noteq> 240 \<longrightarrow> 1 \<le> x"
    unfolding x_def y_def using assms(1,2,9) by auto
  then show "65536 \<le> r"
    unfolding r by (cases "a = 240") simp_all
  have "x < 4 \<or> (x = 4 \<and> y < 16)"
    unfolding x_def y_def using assms(1,2,10) by auto
  then have "x * 64 + y \<le> 271"
    using bounds by auto
  then have "(x * 64 + y) * 4096 \<le> 271 * 4096"
    by (rule mult_le_mono1)
  then show "r \<le> 1114111"
    unfolding r using bounds by simp
qed

lemma chr_int: "chr (int n) = char_of n"
  by (simp add: chr_def)

lemma chr_byte: "char_of (byte c) = c"
  by (simp add: byte_def)

lemma EncodeRune_1: "r < 128 \<Longrightarrow> EncodeRune (int r) = [char_of r]"
  by (simp add: EncodeRune_def chr_def)

lemma chr_sum_div: "chr (int k + int r div int m) = char_of (k + r div m)"
proof -
  have "int k + int r div int m = int (k + r div m)"
    by (simp add: zdiv_int)
  then show ?thesis
    by (simp only: chr_int)
qed

lemma chr_sum_mod: "chr (int k + int r mod int m) = char_of (k + r mod m)"
proof -
  have "int k + int r mod int m = int (k + r mod m)"
    by (simp add: zmod_int)
  then show ?thesis
    by (simp only: chr_int)
qed

lemma chr_sum_div_mod: "chr (int k + (int r div int j) mod int m) = char_of (k + (r div j) mod m)"
proof -
  have "int k + (int r div int j) mod int m = int (k + (r div j) mod m)"
    by (simp add: zmod_int zdiv_int)
  then show ?thesis
    by (simp only: chr_int)
qed

lemma EncodeRune_2:
  assumes "128 \<le> r" "r < 2048"
  shows "EncodeRune (int r) = [char_of (192 + r div 64), char_of (128 + r mod 64)]"
proof -
  have "EncodeRune (int r) = [chr (int 192 + int r div int 64), chr (int 128 + int r mod int 64)]"
    using assms by (simp add: EncodeRune_def)
  then show ?thesis
    by (simp only: chr_sum_div chr_sum_mod)
qed

lemma EncodeRune_3:
  assumes "2048 \<le> r" "r < 65536"
  shows "EncodeRune (int r)
    = [char_of (224 + r div 4096), char_of (128 + (r div 64) mod 64), char_of (128 + r mod 64)]"
proof -
  have "EncodeRune (int r) = [chr (int 224 + int r div int 4096),
      chr (int 128 + (int r div int 64) mod int 64), chr (int 128 + int r mod int 64)]"
    using assms by (simp add: EncodeRune_def)
  then show ?thesis
    by (simp only: chr_sum_div chr_sum_mod chr_sum_div_mod)
qed

lemma EncodeRune_4:
  assumes "65536 \<le> r"
  shows "EncodeRune (int r)
    = [char_of (240 + r div 262144), char_of (128 + (r div 4096) mod 64),
       char_of (128 + (r div 64) mod 64), char_of (128 + r mod 64)]"
proof -
  have "EncodeRune (int r) = [chr (int 240 + int r div int 262144),
      chr (int 128 + (int r div int 4096) mod int 64),
      chr (int 128 + (int r div int 64) mod int 64), chr (int 128 + int r mod int 64)]"
    using assms by (simp add: EncodeRune_def)
  then show ?thesis
    by (simp only: chr_sum_div chr_sum_mod chr_sum_div_mod)
qed

lemma take_1: "s \<noteq> [] \<Longrightarrow> take 1 s = [s ! 0]"
  by (cases s) simp_all

lemma take_2: "2 \<le> length s \<Longrightarrow> take 2 s = [s ! 0, s ! 1]"
  by (cases s; cases "tl s") simp_all

lemma take_3: "3 \<le> length s \<Longrightarrow> take 3 s = [s ! 0, s ! 1, s ! 2]"
  by (cases s; cases "tl s"; cases "tl (tl s)") (simp_all add: numeral_3_eq_3)

lemma take_4: "4 \<le> length s \<Longrightarrow> take 4 s = [s ! 0, s ! 1, s ! 2, s ! 3]"
  by (cases s; cases "tl s"; cases "tl (tl s)"; cases "tl (tl (tl s))")
    (simp_all add: numeral_3_eq_3 eval_nat_numeral)

lemma ValidRune_int:
  "ValidRune (int r) \<longleftrightarrow> r < 55296 \<or> (57343 < r \<and> r \<le> 1114111)"
  by (auto simp: ValidRune_def)

lemma decode_shape:
  assumes "s \<noteq> []"
  shows "DecodeRuneInString s = (RuneError, 1) \<or>
         (ValidRune (fst (DecodeRuneInString s)) \<and>
          EncodeRune (fst (DecodeRuneInString s)) = take (nat (snd (DecodeRuneInString s))) s)"
proof -
  let ?a = "byte (s ! 0)" and ?b = "byte (s ! 1)" and ?c = "byte (s ! 2)" and ?d = "byte (s ! 3)"
  let ?bad = "DecodeRuneInString s = (RuneError, 1)"
  from assms have len: "\<not> length s < 1"
    by (cases s) simp_all
  show ?thesis
  proof (cases "?a < 128")
    case True
    with len have "DecodeRuneInString s = (int ?a, 1)"
      by (simp add: DecodeRuneInString_def)
    moreover have "ValidRune (int ?a)"
      unfolding ValidRune_int using True by simp
    moreover have "EncodeRune (int ?a) = take 1 s"
      unfolding take_1 [OF assms] using True by (simp add: EncodeRune_1 chr_byte)
    ultimately show ?thesis by simp
  next
    case hi: False
    show ?thesis
    proof (cases "?a < 194 \<or> 244 < ?a \<or> length s < lead_size ?a
        \<or> ?b < accept_lo ?a \<or> accept_hi ?a < ?b")
      case True
      with len hi have ?bad
        by (auto simp: DecodeRuneInString_def Let_def)
      then show ?thesis ..
    next
      case False
      then have a: "194 \<le> ?a" "?a \<le> 244" and long: "lead_size ?a \<le> length s"
        and b: "accept_lo ?a \<le> ?b" "?b \<le> accept_hi ?a"
        by simp_all
      from b have b': "128 \<le> ?b" "?b \<le> 191"
        by (simp_all add: accept_lo_def accept_hi_def split: if_splits)
      show ?thesis
      proof (cases "?a < 224")
        case True
        let ?r = "(?a mod 32) * 64 + ?b mod 64"
        from True have sz: "lead_size ?a = 2"
          by (simp add: lead_size_def)
        with len hi a long b have dec: "DecodeRuneInString s = (int ?r, 2)"
          by (simp add: DecodeRuneInString_def Let_def)
        note ar = enc2_arith [OF a(1) True b']
        have "EncodeRune (int ?r) = [char_of ?a, char_of ?b]"
          using EncodeRune_2 [OF ar(1,2)] by (simp only: ar(3,4))
        also have "\<dots> = take 2 s"
          using long sz take_2 [of s] by (simp add: chr_byte)
        finally have "EncodeRune (int ?r) = take 2 s" .
        moreover have "ValidRune (int ?r)"
          unfolding ValidRune_int using ar(2) by simp
        ultimately show ?thesis
          using dec by simp
      next
        case a224: False
        show ?thesis
        proof (cases "?c < 128 \<or> 191 < ?c")
          case True
          with len hi a long b a224 have ?bad
            by (auto simp: DecodeRuneInString_def Let_def lead_size_def)
          then show ?thesis ..
        next
          case False
          then have c: "128 \<le> ?c" "?c \<le> 191"
            by simp_all
          show ?thesis
          proof (cases "?a < 240")
            case True
            let ?r = "(?a mod 16) * 4096 + (?b mod 64) * 64 + ?c mod 64"
            from True a224 have sz: "lead_size ?a = 3"
              by (simp add: lead_size_def)
            with len hi a long b c have dec: "DecodeRuneInString s = (int ?r, 3)"
              by (simp add: DecodeRuneInString_def Let_def)
            from a224 have a1: "224 \<le> ?a"
              by simp
            have lo: "?a = 224 \<longrightarrow> 160 \<le> ?b"
            proof
              assume "?a = 224"
              with b(1) show "160 \<le> ?b"
                by (simp add: accept_lo_def)
            qed
            have up: "?a = 237 \<longrightarrow> ?b \<le> 159"
            proof
              assume "?a = 237"
              with b(2) show "?b \<le> 159"
                by (simp add: accept_hi_def)
            qed
            note ar = enc3_arith [OF a1 True b' c lo up]
            have "EncodeRune (int ?r) = [char_of ?a, char_of ?b, char_of ?c]"
              using EncodeRune_3 [OF ar(1,2)] by (simp only: ar(4,5,6))
            also have "\<dots> = take 3 s"
              using long sz take_3 [of s] by (simp add: chr_byte)
            finally have "EncodeRune (int ?r) = take 3 s" .
            moreover have "ValidRune (int ?r)"
              unfolding ValidRune_int using ar(2,3) by auto
            ultimately show ?thesis
              using dec by simp
          next
            case a240: False
            from a240 have sz: "lead_size ?a = 4"
              by (simp add: lead_size_def)
            show ?thesis
            proof (cases "?d < 128 \<or> 191 < ?d")
              case True
              with len hi a long b c sz have ?bad
                by (auto simp: DecodeRuneInString_def Let_def)
              then show ?thesis ..
            next
              case False
              then have d: "128 \<le> ?d" "?d \<le> 191"
                by simp_all
              let ?r = "(?a mod 8) * 262144 + (?b mod 64) * 4096 + (?c mod 64) * 64 + ?d mod 64"
              from len hi a long b c d sz have dec: "DecodeRuneInString s = (int ?r, 4)"
                by (simp add: DecodeRuneInString_def Let_def)
              from a240 have a1: "240 \<le> ?a"
                by simp
              have lo: "?a = 240 \<longrightarrow> 144 \<le> ?b"
              proof
                assume "?a = 240"
                with b(1) show "144 \<le> ?b"
                  by (simp add: accept_lo_def)
              qed
              have up: "?a = 244 \<longrightarrow> ?b \<le> 143"
              proof
                assume "?a = 244"
                with b(2) show "?b \<le> 143"
                  by (simp add: accept_hi_def)
              qed
              note ar = enc4_arith [OF a1 a(2) b' c d lo up]
              have "EncodeRune (int ?r) = [char_of ?a, char_of ?b, char_of ?c, char_of ?d]"
                using EncodeRune_4 [OF ar(1)] by (simp only: ar(3,4,5,6))
              also have "\<dots> = take 4 s"
                using long sz take_4 [of s] by (simp add: chr_byte)
              finally have "EncodeRune (int ?r) = take 4 s" .
              moreover have "ValidRune (int ?r)"
                unfolding ValidRune_int using ar(1,2) by auto
              ultimately show ?thesis
                using dec by simp
            qed
          qed
        qed
      qed
    qed
  qed
qed

section \<open>The cursor\<close>

lemma Next_at_end:
  "int (length (input l)) \<le> Lexer.Pos l \<Longrightarrow> Next l = Inr (EOF, l\<lparr>Width := 0\<rparr>)"
  by (simp add: Next_def)


lemma Next_inside:
  "0 \<le> Lexer.Pos l \<Longrightarrow> Lexer.Pos l < int (length (input l)) \<Longrightarrow>
   Next l = Inr (fst (decode_at l),
                 l\<lparr>Width := snd (decode_at l), Pos := Lexer.Pos l + snd (decode_at l)\<rparr>)"
  by (simp add: Next_def decode_at_def split: prod.splits)

lemma decode_at_width:
  assumes "0 \<le> Lexer.Pos l" and "Lexer.Pos l < int (length (input l))"
  shows "1 \<le> snd (decode_at l)" and "Lexer.Pos l + snd (decode_at l) \<le> int (length (input l))"
    and "snd (decode_at l) \<le> 4"
proof -
  let ?s = "drop (nat (Lexer.Pos l)) (input l)"
  from assms have "?s \<noteq> []" by simp
  then show "1 \<le> snd (decode_at l)"
    unfolding decode_at_def by (rule decode_width_pos)
  have "snd (decode_at l) \<le> int (length ?s)"
    unfolding decode_at_def by (rule decode_width_le)
  with assms show "Lexer.Pos l + snd (decode_at l) \<le> int (length (input l))"
    by simp
  show "snd (decode_at l) \<le> 4"
    unfolding decode_at_def by (rule decode_width_le4)
qed

lemma Next_result:
  assumes "Next l = Inr (r, l')"
  obtains w where "l' = l\<lparr>Width := w, Pos := Lexer.Pos l + w\<rparr>" and "0 \<le> w"
proof (cases "int (length (input l)) \<le> Lexer.Pos l")
  case True
  with assms have "l' = l\<lparr>Width := 0\<rparr>"
    by (simp add: Next_at_end)
  then have "l' = l\<lparr>Width := 0, Pos := Lexer.Pos l + 0\<rparr>"
    by simp
  then show ?thesis
    using that [of 0] by simp
next
  case False
  with assms have "0 \<le> Lexer.Pos l"
    by (auto simp: Next_def split: if_splits)
  with False assms
  have "l' = l\<lparr>Width := snd (decode_at l), Pos := Lexer.Pos l + snd (decode_at l)\<rparr>"
    by (simp add: Next_inside)
  moreover have "0 \<le> snd (decode_at l)"
    unfolding decode_at_def by (rule decode_width_nonneg)
  ultimately show ?thesis
    using that by blast
qed

lemma Next_ignores_Width: "Next (l\<lparr>Width := w\<rparr>) = Next l"
  by (simp add: Next_def split: prod.splits)

lemma Peek_Next:
  assumes "Next l = Inr (r, l')"
  shows "Peek l = Inr (r, l\<lparr>Width := Width l'\<rparr>)"
proof -
  from assms obtain w where "l' = l\<lparr>Width := w, Pos := Lexer.Pos l + w\<rparr>"
    by (rule Next_result)
  then have "Backup l' = l\<lparr>Width := Width l'\<rparr>"
    by (simp add: Backup_def)
  with assms show ?thesis by (simp add: Peek_def)
qed

lemma Peek_panics: "Next l = Inl e \<Longrightarrow> Peek l = Inl e"
  by (simp add: Peek_def)

lemma Peeks_stable:
  assumes "Peek l = Inr (r, l)"
  shows "Peeks n l = Inr (replicate n r, l)"
  using assms by (induction n) simp_all

lemma Peeks_Next:
  assumes "Next l = Inr (r, l')"
  shows "Peeks (Suc n) l = Inr (replicate (Suc n) r, l\<lparr>Width := Width l'\<rparr>)"
proof -
  let ?lp = "l\<lparr>Width := Width l'\<rparr>"
  have peek: "Peek l = Inr (r, ?lp)"
    using assms by (rule Peek_Next)
  have "Next ?lp = Inr (r, l')"
    using assms by (simp add: Next_ignores_Width)
  then have "Peek ?lp = Inr (r, ?lp\<lparr>Width := Width l'\<rparr>)"
    by (rule Peek_Next)
  then have "Peek ?lp = Inr (r, ?lp)"
    by simp
  then have "Peeks n ?lp = Inr (replicate n r, ?lp)"
    by (rule Peeks_stable)
  with peek show ?thesis by simp
qed

text \<open>
  C7: \<open>Peek\<close> returns the rune that \<open>Next\<close> would return (and panics exactly when
  \<open>Next\<close> would), and the lexer after it differs from the one before at most in
  \<open>Width\<close>, so \<open>Pos\<close> is unchanged. Any number \<open>n + 1\<close> of consecutive calls return
  the same rune each time and leave the same lexer as one call, and a \<open>Next\<close> after
  them returns what it would have returned with no \<open>Peek\<close> at all, rune and lexer.
\<close>

theorem Peek_is_lookahead:
  "(Next l = Inl e \<longrightarrow> Peek l = Inl e) \<and>
   (Next l = Inr (r, l') \<longrightarrow>
      Peek l = Inr (r, l\<lparr>Width := Width l'\<rparr>) \<and>
      Lexer.Pos (l\<lparr>Width := Width l'\<rparr>) = Lexer.Pos l \<and>
      Peeks (Suc n) l = Inr (replicate (Suc n) r, l\<lparr>Width := Width l'\<rparr>) \<and>
      Next (l\<lparr>Width := Width l'\<rparr>) = Inr (r, l'))"
  by (simp add: Peek_panics Peek_Next Peeks_Next Next_ignores_Width del: Peeks.simps)

theorem Peek_is_lookahead_witness:
  "Next (lexer (NewLexer ''t'' ''ab'' (Some ()))) = Inr (97, (lexer (NewLexer ''t'' ''ab'' (Some ())))\<lparr>Width := 1, Pos := 1\<rparr>) \<and>
   Peek (lexer (NewLexer ''t'' ''ab'' (Some ()))) = Inr (97, (lexer (NewLexer ''t'' ''ab'' (Some ())))\<lparr>Width := 1\<rparr>) \<and>
   Peeks 3 (lexer (NewLexer ''t'' ''ab'' (Some ()))) = Inr ([97, 97, 97], (lexer (NewLexer ''t'' ''ab'' (Some ())))\<lparr>Width := 1\<rparr>)"
proof -
  let ?l = "lexer (NewLexer ''t'' ''ab'' (Some ()))"
  have n: "Next ?l = Inr (97, ?l\<lparr>Width := 1, Pos := 1\<rparr>)"
    by (simp add: Next_def NewLexer_def DecodeRuneInString_def byte_def)
  from Peek_is_lookahead [of ?l SliceOutOfRange 97 "?l\<lparr>Width := 1, Pos := 1\<rparr>" 2] n
  show ?thesis
    by (simp add: eval_nat_numeral del: Peeks.simps)
qed

text \<open>
  C8: at or past the end of the input \<open>Next\<close> returns the sentinel \<open>EOF = -1\<close> and
  sets \<open>Width\<close> to 0, so that a \<open>Backup\<close> right after it changes nothing. At an
  offset inside the input \<open>Next\<close> moves \<open>Pos\<close> forward by the width \<open>w\<close> it
  records, and \<open>1 \<le> w \<le> 4\<close> whatever the bytes are, without passing the end of the
  input: either the bytes it steps over are the UTF-8 encoding of the valid rune it
  returns, or it returns the replacement rune and steps over one byte. (A negative
  \<open>Pos\<close>, which no call sequence within the backtracking protocol produces, makes the
  slice expression panic.)
\<close>

theorem Next_end_or_progress:
  "(int (length (input l)) \<le> Lexer.Pos l \<longrightarrow>
      Next l = Inr (EOF, l\<lparr>Width := 0\<rparr>) \<and> EOF = -1 \<and>
      Backup (l\<lparr>Width := 0\<rparr>) = l\<lparr>Width := 0\<rparr>) \<and>
   (0 \<le> Lexer.Pos l \<and> Lexer.Pos l < int (length (input l)) \<longrightarrow>
      (\<exists>r w. Next l = Inr (r, l\<lparr>Width := w, Pos := Lexer.Pos l + w\<rparr>) \<and>
             1 \<le> w \<and> w \<le> 4 \<and> Lexer.Pos l + w \<le> int (length (input l)) \<and>
             ((r = RuneError \<and> w = 1) \<or>
              (ValidRune r \<and>
               EncodeRune r = slice (input l) (Lexer.Pos l) (Lexer.Pos l + w)))))"
proof (intro conjI impI)
  assume "int (length (input l)) \<le> Lexer.Pos l"
  then show "Next l = Inr (EOF, l\<lparr>Width := 0\<rparr>)"
    by (rule Next_at_end)
  show "EOF = -1"
    by (simp add: EOF_def)
  show "Backup (l\<lparr>Width := 0\<rparr>) = l\<lparr>Width := 0\<rparr>"
    by (simp add: Backup_def)
next
  assume "0 \<le> Lexer.Pos l \<and> Lexer.Pos l < int (length (input l))"
  then have inside: "0 \<le> Lexer.Pos l" "Lexer.Pos l < int (length (input l))"
    by simp_all
  let ?s = "drop (nat (Lexer.Pos l)) (input l)"
  let ?r = "fst (decode_at l)" and ?w = "snd (decode_at l)"
  from inside have "?s \<noteq> []"
    by simp
  from decode_shape [OF this]
  have "(?r = RuneError \<and> ?w = 1) \<or> (ValidRune ?r \<and> EncodeRune ?r = take (nat ?w) ?s)"
    by (auto simp: decode_at_def)
  moreover have "slice (input l) (Lexer.Pos l) (Lexer.Pos l + ?w) = take (nat ?w) ?s"
    by (simp add: slice_def)
  ultimately have "(?r = RuneError \<and> ?w = 1) \<or>
      (ValidRune ?r \<and> EncodeRune ?r = slice (input l) (Lexer.Pos l) (Lexer.Pos l + ?w))"
    by simp
  with Next_inside [OF inside] decode_at_width [OF inside]
  show "\<exists>r w. Next l = Inr (r, l\<lparr>Width := w, Pos := Lexer.Pos l + w\<rparr>) \<and>
             1 \<le> w \<and> w \<le> 4 \<and> Lexer.Pos l + w \<le> int (length (input l)) \<and>
             ((r = RuneError \<and> w = 1) \<or>
              (ValidRune r \<and>
               EncodeRune r = slice (input l) (Lexer.Pos l) (Lexer.Pos l + w)))"
    by blast
qed

theorem Next_end_or_progress_witness:
  "Next ((lexer (NewLexer ''t'' [CHR 0xFF, CHR ''a''] (Some ())))\<lparr>Pos := 2\<rparr>)
     = Inr (-1, (lexer (NewLexer ''t'' [CHR 0xFF, CHR ''a''] (Some ())))\<lparr>Pos := 2\<rparr>) \<and>
   Next (lexer (NewLexer ''t'' [CHR 0xFF, CHR ''a''] (Some ())))
     = Inr (65533, (lexer (NewLexer ''t'' [CHR 0xFF, CHR ''a''] (Some ())))\<lparr>Width := 1, Pos := 1\<rparr>)"
proof -
  let ?l = "lexer (NewLexer ''t'' [CHR 0xFF, CHR ''a''] (Some ()))"
  have "Next (?l\<lparr>Pos := 2\<rparr>) = Inr (-1, ?l\<lparr>Pos := 2\<rparr>)"
    using Next_end_or_progress [of "?l\<lparr>Pos := 2\<rparr>"]
    by (simp add: NewLexer_def)
  moreover have "Next ?l = Inr (65533, ?l\<lparr>Width := 1, Pos := 1\<rparr>)"
    using Next_end_or_progress [of ?l]
    by (auto simp: NewLexer_def Next_def DecodeRuneInString_def byte_def RuneError_def)
  ultimately show ?thesis by simp
qed

text \<open>
  C9: from any non-negative scan offset \<open>Peek\<close> returns the rune of \<open>Next\<close> and a
  lexer that differs only in \<open>Width\<close>, which now holds the width \<open>w\<close> of the peeked
  code point: between 1 and 4 inside the input, 0 at its end. \<open>Pos\<close>, \<open>Start\<close> and
  the input are unchanged. A \<open>Backup\<close> right after the \<open>Peek\<close> therefore moves
  \<open>Pos\<close> back by \<open>w\<close>: it is a no-op only at the end of the input.
\<close>

theorem Peek_overwrites_Width:
  assumes "0 \<le> Lexer.Pos l"
  shows "\<exists>r w. Peek l = Inr (r, l\<lparr>Width := w\<rparr>) \<and>
           Next l = Inr (r, l\<lparr>Width := w, Pos := Lexer.Pos l + w\<rparr>) \<and>
           (if Lexer.Pos l < int (length (input l)) then 1 \<le> w \<and> w \<le> 4 else w = 0) \<and>
           Backup (l\<lparr>Width := w\<rparr>) = l\<lparr>Width := w, Pos := Lexer.Pos l - w\<rparr>"
proof (cases "Lexer.Pos l < int (length (input l))")
  case True
  let ?w = "snd (decode_at l)"
  have n: "Next l =
      Inr (fst (decode_at l), l\<lparr>Width := ?w, Pos := Lexer.Pos l + ?w\<rparr>)"
    using assms True by (rule Next_inside)
  then have "Peek l = Inr (fst (decode_at l), l\<lparr>Width := ?w\<rparr>)"
    using Peek_Next [OF n] by simp
  moreover have "1 \<le> ?w" and "?w \<le> 4"
    using decode_at_width [OF assms True] by simp_all
  moreover have "Backup (l\<lparr>Width := ?w\<rparr>) = l\<lparr>Width := ?w, Pos := Lexer.Pos l - ?w\<rparr>"
    by (simp add: Backup_def)
  ultimately show ?thesis
    using n True by auto
next
  case False
  then have n: "Next l = Inr (EOF, l\<lparr>Width := 0\<rparr>)"
    by (simp add: Next_at_end)
  then have n': "Next l = Inr (EOF, l\<lparr>Width := 0, Pos := Lexer.Pos l + 0\<rparr>)"
    by simp
  have "Peek l = Inr (EOF, l\<lparr>Width := 0\<rparr>)"
    using Peek_Next [OF n] by simp
  moreover have "Backup (l\<lparr>Width := 0\<rparr>) = l\<lparr>Width := 0, Pos := Lexer.Pos l - 0\<rparr>"
    by (simp add: Backup_def)
  ultimately show ?thesis
    using n' False by (intro exI [of _ EOF] exI [of _ 0]) simp
qed

theorem Peek_overwrites_Width_witness:
  "0 \<le> Lexer.Pos (lexer (NewLexer ''t'' ''ab'' (Some ()))) \<and>
   Peek (lexer (NewLexer ''t'' ''ab'' (Some ()))) = Inr (97, (lexer (NewLexer ''t'' ''ab'' (Some ())))\<lparr>Width := 1\<rparr>) \<and>
   Lexer.Pos (Backup ((lexer (NewLexer ''t'' ''ab'' (Some ())))\<lparr>Width := 1\<rparr>)) = -1"
proof -
  let ?l = "lexer (NewLexer ''t'' ''ab'' (Some ()))"
  have p: "0 \<le> Lexer.Pos ?l"
    by (simp add: NewLexer_def)
  have "Peek ?l = Inr (97, ?l\<lparr>Width := 1\<rparr>)"
    using Peek_overwrites_Width [OF p]
    by (auto simp: NewLexer_def Next_def DecodeRuneInString_def byte_def)
  then show ?thesis
    using p by (simp add: Backup_def NewLexer_def)
qed

section \<open>Decoding and truncation\<close>

lemma decode_take:
  assumes "nat (snd (DecodeRuneInString s)) \<le> k" and "0 < k"
  shows "DecodeRuneInString (take k s) = DecodeRuneInString s"
proof (cases "s = []")
  case True
  then show ?thesis by simp
next
  case False
  with assms(2) have n0: "take k s ! 0 = s ! 0" and ne: "take k s \<noteq> []"
    by simp_all
  have len: "length (take k s) = min k (length s)"
    by simp
  have nth: "\<And>i. i < k \<Longrightarrow> take k s ! i = s ! i"
    by simp
  note sz = lead_size_bounds [of "byte (s ! 0)"]
  show ?thesis
  proof (cases "k < 4")
    case False
    with sz nth show ?thesis
      by (simp add: DecodeRuneInString_def Let_def min_def)
  next
    case True
    then consider "k = 1" | "k = 2" | "k = 3"
      using assms(2) by linarith
    then show ?thesis
    proof cases
      case 1
      with assms(1) sz show ?thesis
        by (auto simp: DecodeRuneInString_def Let_def min_def split: if_splits)
    next
      case 2
      with assms(1) sz show ?thesis
        by (auto simp: DecodeRuneInString_def Let_def min_def split: if_splits)
    next
      case 3
      with assms(1) sz show ?thesis
        by (auto simp: DecodeRuneInString_def Let_def min_def numeral_3_eq_3 split: if_splits)
    qed
  qed
qed

declare runes.simps [simp del] truncateString.simps [simp del]

lemma runes_Nil: "runes [] = []"
  by (simp add: runes.simps)

lemma runes_step:
  "s \<noteq> [] \<Longrightarrow>
   runes s = fst (DecodeRuneInString s) # runes (drop (nat (snd (DecodeRuneInString s))) s)"
  by (subst runes.simps) (simp add: split_beta)

lemma truncateString_stop: "s = [] \<or> n = 0 \<Longrightarrow> truncateString n s = []"
  by (subst truncateString.simps) simp

lemma truncateString_step:
  "s \<noteq> [] \<Longrightarrow> 0 < n \<Longrightarrow>
   truncateString n s =
     take (nat (snd (DecodeRuneInString s))) s
       @ truncateString (n - 1) (drop (nat (snd (DecodeRuneInString s))) s)"
  by (subst truncateString.simps) (simp add: split_beta)

lemma truncateString_take: "\<exists>k. truncateString n s = take k s"
proof (induction n s rule: truncateString.induct)
  case (1 n s)
  show ?case
  proof (cases "s = [] \<or> n = 0")
    case True
    then have "truncateString n s = take 0 s"
      by (simp add: truncateString_stop)
    then show ?thesis ..
  next
    case False
    let ?w = "nat (snd (DecodeRuneInString s))"
    from False "1.IH" [of "DecodeRuneInString s" "fst (DecodeRuneInString s)" "snd (DecodeRuneInString s)"]
    obtain k where "truncateString (n - 1) (drop ?w s) = take k (drop ?w s)"
      by auto
    with False have "truncateString n s = take (?w + k) s"
      by (simp add: truncateString_step take_add)
    then show ?thesis ..
  qed
qed

lemma runes_truncateString: "runes (truncateString n s) = take n (runes s)"
proof (induction n s rule: truncateString.induct)
  case (1 n s)
  show ?case
  proof (cases "s = [] \<or> n = 0")
    case True
    then show ?thesis
      by (auto simp: truncateString_stop runes_Nil)
  next
    case False
    let ?d = "DecodeRuneInString s"
    let ?w = "nat (snd ?d)"
    let ?T = "truncateString (n - 1) (drop ?w s)"
    from False have ne: "s \<noteq> []" and n: "0 < n"
      by simp_all
    have w1: "1 \<le> snd ?d"
      using ne by (rule decode_width_pos)
    have wlen: "?w \<le> length s"
      using decode_width_le [of s] by simp
    obtain k where k: "?T = take k (drop ?w s)"
      using truncateString_take by blast
    have whole: "truncateString n s = take ?w s @ ?T"
      using ne n by (rule truncateString_step)
    then have "truncateString n s = take (?w + k) s"
      using k by (simp add: take_add)
    moreover have "DecodeRuneInString (take (?w + k) s) = ?d"
      using w1 by (intro decode_take) simp_all
    ultimately have d: "DecodeRuneInString (truncateString n s) = ?d"
      by simp
    have ne': "truncateString n s \<noteq> []"
      using whole ne w1 by simp
    have "drop ?w (truncateString n s) = ?T"
      using whole wlen by simp
    with d have "runes (truncateString n s) = fst ?d # runes ?T"
      using runes_step [OF ne'] by simp
    also have "runes ?T = take (n - 1) (runes (drop ?w s))"
      using False "1.IH" [of ?d "fst ?d" "snd ?d"] by simp
    also have "fst ?d # take (n - 1) (runes (drop ?w s)) = take n (runes s)"
      using n runes_step [OF ne] by (cases n) simp_all
    finally show ?thesis .
  qed
qed

lemma decode_ascii:
  "s \<noteq> [] \<Longrightarrow> byte (hd s) < 128 \<Longrightarrow> DecodeRuneInString s = (int (byte (hd s)), 1)"
  by (cases s) (simp_all add: DecodeRuneInString_def)

lemma truncateString_ascii:
  "\<forall>c \<in> set s. byte c < 128 \<Longrightarrow> truncateString n s = take n s"
proof (induction n arbitrary: s)
  case 0
  then show ?case by (simp add: truncateString_stop)
next
  case (Suc n)
  show ?case
  proof (cases s)
    case Nil
    then show ?thesis by (simp add: truncateString_stop)
  next
    case (Cons c cs)
    with Suc.prems have "DecodeRuneInString s = (int (byte c), 1)"
      using decode_ascii [of s] by simp
    with Cons Suc show ?thesis
      by (simp add: truncateString_step)
  qed
qed

section \<open>Runes that belong to a string\<close>

text \<open>
  Decoding inverts encoding, a lead byte is never a continuation byte, and so the test
  \<open>strings.IndexRune(s, r) >= 0\<close> holds exactly when \<open>r\<close> is one of the runes of \<open>s\<close>.
\<close>

lemma byte_char_of: "n < 256 \<Longrightarrow> byte (char_of n) = n"
  by (simp add: byte_def)

lemma decode_ascii_app:
  assumes "r < 128"
  shows "DecodeRuneInString (EncodeRune (int r) @ t) = (int r, 1)"
  using assms by (simp add: EncodeRune_1 DecodeRuneInString_def byte_char_of)

lemma dec2_arith:
  fixes r :: nat
  assumes "128 \<le> r" "r < 2048"
  defines "a \<equiv> 192 + r div 64" and "b \<equiv> 128 + r mod 64"
  shows "194 \<le> a" "a < 224" "128 \<le> b" "b \<le> 191" "(a mod 32) * 64 + b mod 64 = r"
proof -
  have q: "2 \<le> r div 64" "r div 64 < 32"
    using assms(1,2) by simp_all
  have m: "r mod 64 < 64"
    by simp
  show "194 \<le> a" "a < 224" "128 \<le> b" "b \<le> 191"
    unfolding a_def b_def using q m by simp_all
  have "a mod 32 = r div 64"
    unfolding a_def using mod_shift [of 6 32 "192 + r div 64"] q by simp
  moreover have "b mod 64 = r mod 64"
    unfolding b_def using mod_shift [of 2 64 "128 + r mod 64"] m by simp
  ultimately show "(a mod 32) * 64 + b mod 64 = r"
    by simp
qed

lemma split3:
  fixes r :: nat
  shows "r = (r div 4096) * 4096 + ((r div 64) mod 64) * 64 + r mod 64"
proof -
  define q p where "q = r div 64" and "p = (r div 64) div 64"
  have p: "r div 4096 = p"
    unfolding p_def using div_mult2_eq [of r 64 64] by simp
  have 1: "q * 64 + r mod 64 = r"
    unfolding q_def by (rule div_mult_mod_eq)
  have 2: "p * 64 + q mod 64 = q"
    unfolding p_def q_def by (rule div_mult_mod_eq)
  have "p * 4096 + (q mod 64) * 64 + r mod 64 = (p * 64 + q mod 64) * 64 + r mod 64"
    by simp
  also have "\<dots> = r"
    by (simp only: 2 1)
  finally show ?thesis
    unfolding p q_def by simp
qed

lemma dec3_arith:
  fixes r :: nat
  assumes "2048 \<le> r" "r < 65536" "r < 55296 \<or> 57343 < r"
  defines "a \<equiv> 224 + r div 4096" and "b \<equiv> 128 + (r div 64) mod 64" and "c \<equiv> 128 + r mod 64"
  shows "224 \<le> a" "a < 240" "128 \<le> b" "b \<le> 191" "128 \<le> c" "c \<le> 191"
    "a = 224 \<longrightarrow> 160 \<le> b" "a = 237 \<longrightarrow> b \<le> 159"
    "(a mod 16) * 4096 + (b mod 64) * 64 + c mod 64 = r"
proof -
  define x y z where "x = r div 4096" and "y = (r div 64) mod 64" and "z = r mod 64"
  have r: "r = x * 4096 + y * 64 + z"
    unfolding x_def y_def z_def by (rule split3)
  have bounds: "x < 16" "y < 64" "z < 64"
    unfolding x_def y_def z_def using assms(2) by simp_all
  have a: "a = 224 + x" and b: "b = 128 + y" and c: "c = 128 + z"
    unfolding a_def b_def c_def x_def y_def z_def by simp_all
  show "224 \<le> a" "a < 240" "128 \<le> b" "b \<le> 191" "128 \<le> c" "c \<le> 191"
    unfolding a b c using bounds by simp_all
  show "a = 224 \<longrightarrow> 160 \<le> b"
  proof
    assume "a = 224"
    then have "x = 0"
      unfolding a by simp
    with r assms(1) bounds have "32 \<le> y"
      by simp
    then show "160 \<le> b"
      unfolding b by simp
  qed
  show "a = 237 \<longrightarrow> b \<le> 159"
  proof
    assume "a = 237"
    then have "x = 13"
      unfolding a by simp
    with r assms(3) bounds have "y < 32"
      by auto
    then show "b \<le> 159"
      unfolding b by simp
  qed
  have "a mod 16 = x"
    unfolding a using mod_shift [of 14 16 "224 + x"] bounds by simp
  moreover have "b mod 64 = y"
    unfolding b using mod_shift [of 2 64 "128 + y"] bounds by simp
  moreover have "c mod 64 = z"
    unfolding c using mod_shift [of 2 64 "128 + z"] bounds by simp
  ultimately show "(a mod 16) * 4096 + (b mod 64) * 64 + c mod 64 = r"
    unfolding r by simp
qed

lemma split4:
  fixes r :: nat
  shows "r = (r div 262144) * 262144 + ((r div 4096) mod 64) * 4096
           + ((r div 64) mod 64) * 64 + r mod 64"
proof -
  define q p where "q = r div 4096" and "p = (r div 4096) div 64"
  have p: "r div 262144 = p"
    unfolding p_def using div_mult2_eq [of r 4096 64] by simp
  have 2: "p * 64 + q mod 64 = q"
    unfolding p_def q_def by (rule div_mult_mod_eq)
  have 3: "q * 4096 + ((r div 64) mod 64) * 64 + r mod 64 = r"
    unfolding q_def by (rule split3 [symmetric])
  have "p * 262144 + (q mod 64) * 4096 + ((r div 64) mod 64) * 64 + r mod 64
      = (p * 64 + q mod 64) * 4096 + ((r div 64) mod 64) * 64 + r mod 64"
    by simp
  also have "\<dots> = r"
    by (simp only: 2 3)
  finally show ?thesis
    unfolding p q_def by simp
qed

lemma dec4_arith:
  fixes r :: nat
  assumes "65536 \<le> r" "r \<le> 1114111"
  defines "a \<equiv> 240 + r div 262144" and "b \<equiv> 128 + (r div 4096) mod 64"
    and "c \<equiv> 128 + (r div 64) mod 64" and "d \<equiv> 128 + r mod 64"
  shows "240 \<le> a" "a \<le> 244" "128 \<le> b" "b \<le> 191" "128 \<le> c" "c \<le> 191"
    "128 \<le> d" "d \<le> 191"
    "a = 240 \<longrightarrow> 144 \<le> b" "a = 244 \<longrightarrow> b \<le> 143"
    "(a mod 8) * 262144 + (b mod 64) * 4096 + (c mod 64) * 64 + d mod 64 = r"
proof -
  define x y z u where "x = r div 262144" and "y = (r div 4096) mod 64"
    and "z = (r div 64) mod 64" and "u = r mod 64"
  have r: "r = x * 262144 + y * 4096 + z * 64 + u"
    unfolding x_def y_def z_def u_def by (rule split4)
  have bounds: "x \<le> 4" "y < 64" "z < 64" "u < 64"
    unfolding x_def y_def z_def u_def using assms(2) by simp_all
  have a: "a = 240 + x" and b: "b = 128 + y" and c: "c = 128 + z" and d: "d = 128 + u"
    unfolding a_def b_def c_def d_def x_def y_def z_def u_def by simp_all
  show "240 \<le> a" "a \<le> 244" "128 \<le> b" "b \<le> 191" "128 \<le> c" "c \<le> 191"
    "128 \<le> d" "d \<le> 191"
    unfolding a b c d using bounds by simp_all
  show "a = 240 \<longrightarrow> 144 \<le> b"
  proof
    assume "a = 240"
    then have "x = 0"
      unfolding a by simp
    with r assms(1) bounds have "16 \<le> y"
      by simp
    then show "144 \<le> b"
      unfolding b by simp
  qed
  show "a = 244 \<longrightarrow> b \<le> 143"
  proof
    assume "a = 244"
    then have "x = 4"
      unfolding a by simp
    with r assms(2) bounds have "y < 16"
      by auto
    then show "b \<le> 143"
      unfolding b by simp
  qed
  have "a mod 8 = x"
    unfolding a using mod_shift [of 30 8 "240 + x"] bounds by simp
  moreover have "b mod 64 = y"
    unfolding b using mod_shift [of 2 64 "128 + y"] bounds by simp
  moreover have "c mod 64 = z"
    unfolding c using mod_shift [of 2 64 "128 + z"] bounds by simp
  moreover have "d mod 64 = u"
    unfolding d using mod_shift [of 2 64 "128 + u"] bounds by simp
  ultimately show "(a mod 8) * 262144 + (b mod 64) * 4096 + (c mod 64) * 64 + d mod 64 = r"
    unfolding r by simp
qed

lemma decode_2:
  assumes "2 \<le> length s" and "194 \<le> byte (s ! 0)" "byte (s ! 0) < 224"
    and "128 \<le> byte (s ! 1)" "byte (s ! 1) \<le> 191"
  shows "DecodeRuneInString s = (int ((byte (s ! 0) mod 32) * 64 + byte (s ! 1) mod 64), 2)"
proof -
  have "lead_size (byte (s ! 0)) = 2" "accept_lo (byte (s ! 0)) = 128"
    "accept_hi (byte (s ! 0)) = 191"
    using assms(2,3) by (simp_all add: lead_size_def accept_lo_def accept_hi_def)
  moreover from assms(1) have "s \<noteq> []"
    by auto
  ultimately show ?thesis
    using assms by (simp add: DecodeRuneInString_def Let_def)
qed

lemma decode_3:
  assumes "3 \<le> length s" and "224 \<le> byte (s ! 0)" "byte (s ! 0) < 240"
    and "128 \<le> byte (s ! 1)" "byte (s ! 1) \<le> 191"
    and "128 \<le> byte (s ! 2)" "byte (s ! 2) \<le> 191"
    and "byte (s ! 0) = 224 \<longrightarrow> 160 \<le> byte (s ! 1)"
    and "byte (s ! 0) = 237 \<longrightarrow> byte (s ! 1) \<le> 159"
  shows "DecodeRuneInString s
    = (int ((byte (s ! 0) mod 16) * 4096 + (byte (s ! 1) mod 64) * 64 + byte (s ! 2) mod 64), 3)"
proof -
  have sz: "lead_size (byte (s ! 0)) = 3"
    using assms(2,3) by (simp add: lead_size_def)
  have lo: "accept_lo (byte (s ! 0)) \<le> byte (s ! 1)"
    using assms(2,3,4,8) by (simp add: accept_lo_def)
  have hi: "byte (s ! 1) \<le> accept_hi (byte (s ! 0))"
    using assms(2,3,5,9) by (simp add: accept_hi_def)
  from assms(1) have "s \<noteq> []"
    by auto
  with assms(1-3,6,7) sz lo hi show ?thesis
    by (simp add: DecodeRuneInString_def Let_def)
qed

lemma decode_4:
  assumes "4 \<le> length s" and "240 \<le> byte (s ! 0)" "byte (s ! 0) \<le> 244"
    and "128 \<le> byte (s ! 1)" "byte (s ! 1) \<le> 191"
    and "128 \<le> byte (s ! 2)" "byte (s ! 2) \<le> 191"
    and "128 \<le> byte (s ! 3)" "byte (s ! 3) \<le> 191"
    and "byte (s ! 0) = 240 \<longrightarrow> 144 \<le> byte (s ! 1)"
    and "byte (s ! 0) = 244 \<longrightarrow> byte (s ! 1) \<le> 143"
  shows "DecodeRuneInString s
    = (int ((byte (s ! 0) mod 8) * 262144 + (byte (s ! 1) mod 64) * 4096
            + (byte (s ! 2) mod 64) * 64 + byte (s ! 3) mod 64), 4)"
proof -
  have sz: "lead_size (byte (s ! 0)) = 4"
    using assms(2,3) by (simp add: lead_size_def)
  have lo: "accept_lo (byte (s ! 0)) \<le> byte (s ! 1)"
    using assms(2,3,4,10) by (simp add: accept_lo_def)
  have hi: "byte (s ! 1) \<le> accept_hi (byte (s ! 0))"
    using assms(2,3,5,11) by (simp add: accept_hi_def)
  from assms(1) have "s \<noteq> []"
    by auto
  with assms(1-3,6-9) sz lo hi show ?thesis
    by (simp add: DecodeRuneInString_def Let_def)
qed

lemma decode_encode:
  assumes "ValidRune (int n)"
  shows "DecodeRuneInString (EncodeRune (int n) @ t) = (int n, int (length (EncodeRune (int n))))"
proof -
  consider (one) "n < 128" | (two) "128 \<le> n" "n < 2048" | (three) "2048 \<le> n" "n < 65536"
    | (four) "65536 \<le> n"
    by linarith
  then show ?thesis
  proof cases
    case one
    with decode_ascii_app [OF one, of t] show ?thesis
      by (simp add: EncodeRune_1)
  next
    case two
    define a b where "a = 192 + n div 64" and "b = 128 + n mod 64"
    let ?s = "[char_of a, char_of b] @ t"
    note ar = dec2_arith [OF two, folded a_def b_def]
    have e: "EncodeRune (int n) = [char_of a, char_of b]"
      unfolding a_def b_def using two by (rule EncodeRune_2)
    have by0: "byte (?s ! 0) = a" and by1: "byte (?s ! 1) = b"
      using ar(2,4) by (simp_all add: byte_char_of)
    have "DecodeRuneInString ?s = (int ((byte (?s ! 0) mod 32) * 64 + byte (?s ! 1) mod 64), 2)"
    proof (rule decode_2)
      show "2 \<le> length ?s" by simp
      show "194 \<le> byte (?s ! 0)" "byte (?s ! 0) < 224"
        unfolding by0 by (rule ar)+
      show "128 \<le> byte (?s ! 1)" "byte (?s ! 1) \<le> 191"
        unfolding by1 by (rule ar)+
    qed
    then have "DecodeRuneInString ?s = (int n, 2)"
      unfolding by0 by1 ar(5) .
    then show ?thesis
      unfolding e by simp
  next
    case three
    define a b c where "a = 224 + n div 4096" and "b = 128 + (n div 64) mod 64"
      and "c = 128 + n mod 64"
    let ?s = "[char_of a, char_of b, char_of c] @ t"
    from assms have "n < 55296 \<or> 57343 < n"
      unfolding ValidRune_int by auto
    note ar = dec3_arith [OF three this, folded a_def b_def c_def]
    have e: "EncodeRune (int n) = [char_of a, char_of b, char_of c]"
      unfolding a_def b_def c_def using three by (rule EncodeRune_3)
    have by0: "byte (?s ! 0) = a" and by1: "byte (?s ! 1) = b" and by2: "byte (?s ! 2) = c"
      using ar(2,4,6) by (simp_all add: byte_char_of)
    have "DecodeRuneInString ?s
        = (int ((byte (?s ! 0) mod 16) * 4096 + (byte (?s ! 1) mod 64) * 64
                + byte (?s ! 2) mod 64), 3)"
    proof (rule decode_3)
      show "3 \<le> length ?s" by simp
      show "224 \<le> byte (?s ! 0)" "byte (?s ! 0) < 240"
        unfolding by0 by (rule ar)+
      show "128 \<le> byte (?s ! 1)" "byte (?s ! 1) \<le> 191"
        unfolding by1 by (rule ar)+
      show "128 \<le> byte (?s ! 2)" "byte (?s ! 2) \<le> 191"
        unfolding by2 by (rule ar)+
      show "byte (?s ! 0) = 224 \<longrightarrow> 160 \<le> byte (?s ! 1)"
        "byte (?s ! 0) = 237 \<longrightarrow> byte (?s ! 1) \<le> 159"
        unfolding by0 by1 by (rule ar)+
    qed
    then have "DecodeRuneInString ?s = (int n, 3)"
      unfolding by0 by1 by2 ar(9) .
    then show ?thesis
      unfolding e by simp
  next
    case four
    define a b c d where "a = 240 + n div 262144" and "b = 128 + (n div 4096) mod 64"
      and "c = 128 + (n div 64) mod 64" and "d = 128 + n mod 64"
    let ?s = "[char_of a, char_of b, char_of c, char_of d] @ t"
    from assms four have "n \<le> 1114111"
      unfolding ValidRune_int by auto
    note ar = dec4_arith [OF four this, folded a_def b_def c_def d_def]
    have e: "EncodeRune (int n) = [char_of a, char_of b, char_of c, char_of d]"
      unfolding a_def b_def c_def d_def using four by (rule EncodeRune_4)
    have by0: "byte (?s ! 0) = a" and by1: "byte (?s ! 1) = b" and by2: "byte (?s ! 2) = c"
      and by3: "byte (?s ! 3) = d"
      using ar(2,4,6,8) by (simp_all add: byte_char_of)
    have "DecodeRuneInString ?s
        = (int ((byte (?s ! 0) mod 8) * 262144 + (byte (?s ! 1) mod 64) * 4096
                + (byte (?s ! 2) mod 64) * 64 + byte (?s ! 3) mod 64), 4)"
    proof (rule decode_4)
      show "4 \<le> length ?s" by simp
      show "240 \<le> byte (?s ! 0)" "byte (?s ! 0) \<le> 244"
        unfolding by0 by (rule ar)+
      show "128 \<le> byte (?s ! 1)" "byte (?s ! 1) \<le> 191"
        unfolding by1 by (rule ar)+
      show "128 \<le> byte (?s ! 2)" "byte (?s ! 2) \<le> 191"
        unfolding by2 by (rule ar)+
      show "128 \<le> byte (?s ! 3)" "byte (?s ! 3) \<le> 191"
        unfolding by3 by (rule ar)+
      show "byte (?s ! 0) = 240 \<longrightarrow> 144 \<le> byte (?s ! 1)"
        "byte (?s ! 0) = 244 \<longrightarrow> byte (?s ! 1) \<le> 143"
        unfolding by0 by1 by (rule ar)+
    qed
    then have "DecodeRuneInString ?s = (int n, 4)"
      unfolding by0 by1 by2 by3 ar(11) .
    then show ?thesis
      unfolding e by simp
  qed
qed

lemma encode_bytes:
  assumes "ValidRune (int n)" and "128 \<le> n"
  shows "\<exists>c cs. EncodeRune (int n) = c # cs \<and> 192 \<le> byte c \<and> byte c < 256 \<and>
           (\<forall>x \<in> set cs. 128 \<le> byte x \<and> byte x \<le> 191)"
proof -
  consider (two) "n < 2048" | (three) "2048 \<le> n" "n < 65536" | (four) "65536 \<le> n"
    by linarith
  then show ?thesis
  proof cases
    case two
    note ar = dec2_arith [OF assms(2) two]
    show ?thesis
      unfolding EncodeRune_2 [OF assms(2) two] using ar(1-4)
      by (simp add: byte_char_of)
  next
    case three
    from assms(1) have "n < 55296 \<or> 57343 < n"
      unfolding ValidRune_int by auto
    note ar = dec3_arith [OF three this]
    show ?thesis
      unfolding EncodeRune_3 [OF three] using ar(1-6)
      by (simp add: byte_char_of)
  next
    case four
    from assms(1) four have "n \<le> 1114111"
      unfolding ValidRune_int by auto
    note ar = dec4_arith [OF four this]
    show ?thesis
      unfolding EncodeRune_4 [OF four] using ar(1-8)
      by (simp add: byte_char_of)
  qed
qed

lemma decode_error_byte:
  assumes "s \<noteq> []" and "DecodeRuneInString s = (RuneError, w)" and "w = 1"
  shows "128 \<le> byte (s ! 0)"
proof (rule ccontr)
  assume "\<not> 128 \<le> byte (s ! 0)"
  with assms(1) have "DecodeRuneInString s = (int (byte (s ! 0)), 1)"
    by (cases s) (simp_all add: DecodeRuneInString_def)
  with assms(2) \<open>\<not> 128 \<le> byte (s ! 0)\<close> show False
    by (simp add: RuneError_def)
qed

lemma Index_nonneg_iff:
  "0 \<le> Index s sub \<longleftrightarrow> (\<exists>i \<le> length s. take (length sub) (drop i s) = sub)"
proof (induction s)
  case Nil
  then show ?case by auto
next
  case (Cons x xs)
  show ?case
  proof (cases "take (length sub) (x # xs) = sub")
    case True
    then have "take (length sub) (drop 0 (x # xs)) = sub"
      by simp
    with True show ?thesis
      by (metis Index.simps(2) le0 order_refl)
  next
    case False
    have "(\<exists>i \<le> length (x # xs). take (length sub) (drop i (x # xs)) = sub)
        \<longleftrightarrow> (\<exists>i \<le> length xs. take (length sub) (drop i xs) = sub)"
    proof
      assume "\<exists>i \<le> length (x # xs). take (length sub) (drop i (x # xs)) = sub"
      then obtain i where i: "i \<le> length (x # xs)" "take (length sub) (drop i (x # xs)) = sub"
        by blast
      with False have "i \<noteq> 0"
        by (cases i) auto
      then obtain j where "i = Suc j"
        by (cases i) auto
      with i show "\<exists>i \<le> length xs. take (length sub) (drop i xs) = sub"
        by auto
    next
      assume "\<exists>i \<le> length xs. take (length sub) (drop i xs) = sub"
      then obtain j where "j \<le> length xs" "take (length sub) (drop j xs) = sub"
        by blast
      then have "Suc j \<le> length (x # xs)" "take (length sub) (drop (Suc j) (x # xs)) = sub"
        by simp_all
      then show "\<exists>i \<le> length (x # xs). take (length sub) (drop i (x # xs)) = sub"
        by blast
    qed
    moreover have "0 \<le> Index (x # xs) sub \<longleftrightarrow> 0 \<le> Index xs sub"
      using False by (auto simp: Let_def)
    ultimately show ?thesis
      using Cons.IH by simp
  qed
qed

lemma IndexByte_nonneg_iff: "0 \<le> IndexByte s c \<longleftrightarrow> c \<in> set s"
  by (induction s) (auto simp: Let_def)

lemma decode_step:
  assumes "s \<noteq> []"
  defines "w \<equiv> nat (snd (DecodeRuneInString s))"
  shows "1 \<le> w" and "w \<le> length s"
    and "(fst (DecodeRuneInString s) = RuneError \<and> w = 1 \<and> 128 \<le> byte (s ! 0)) \<or>
         (\<exists>m. fst (DecodeRuneInString s) = int m \<and> ValidRune (int m) \<and>
              take w s = EncodeRune (int m) \<and> w = length (EncodeRune (int m)))"
proof -
  show w1: "1 \<le> w"
    unfolding w_def using decode_width_pos [OF assms(1)] by simp
  show wl: "w \<le> length s"
    unfolding w_def using decode_width_le [of s] by simp
  from decode_shape [OF assms(1)]
  show "(fst (DecodeRuneInString s) = RuneError \<and> w = 1 \<and> 128 \<le> byte (s ! 0)) \<or>
         (\<exists>m. fst (DecodeRuneInString s) = int m \<and> ValidRune (int m) \<and>
              take w s = EncodeRune (int m) \<and> w = length (EncodeRune (int m)))"
  proof
    assume bad: "DecodeRuneInString s = (RuneError, 1)"
    then have "128 \<le> byte (s ! 0)"
      using decode_error_byte [OF assms(1)] by simp
    with bad show ?thesis
      unfolding w_def by simp
  next
    assume ok: "ValidRune (fst (DecodeRuneInString s)) \<and>
      EncodeRune (fst (DecodeRuneInString s)) = take (nat (snd (DecodeRuneInString s))) s"
    then have "0 \<le> fst (DecodeRuneInString s)"
      by (auto simp: ValidRune_def)
    then obtain m where m: "fst (DecodeRuneInString s) = int m"
      using nonneg_int_cases by blast
    with ok have "ValidRune (int m)" and e: "take w s = EncodeRune (int m)"
      unfolding w_def by simp_all
    moreover from e wl have "w = length (EncodeRune (int m))"
      by (metis length_take min.absorb2)
    ultimately show ?thesis
      using m by blast
  qed
qed

lemma runes_unfold:
  assumes "s \<noteq> []"
  shows "set (runes s) = insert (fst (DecodeRuneInString s))
           (set (runes (drop (nat (snd (DecodeRuneInString s))) s)))"
  using runes_step [OF assms] by simp

lemma runes_valid:
  "r \<in> set (runes s) \<Longrightarrow> r = RuneError \<or> ValidRune r"
proof (induction s rule: runes.induct)
  case (1 s)
  show ?case
  proof (cases "s = []")
    case True
    with "1.prems" show ?thesis by (simp add: runes_Nil)
  next
    case False
    let ?d = "DecodeRuneInString s"
    from "1.prems" runes_unfold [OF False]
    consider "r = fst ?d" | "r \<in> set (runes (drop (nat (snd ?d)) s))"
      by auto
    then show ?thesis
    proof cases
      case 1
      with decode_step(3) [OF False] show ?thesis by auto
    next
      case 2
      with "1.IH" [OF False, of ?d "fst ?d" "snd ?d"] show ?thesis by simp
    qed
  qed
qed

lemma IndexRuneError_iff: "0 \<le> IndexRuneError s \<longleftrightarrow> RuneError \<in> set (runes s)"
proof (induction s rule: IndexRuneError.induct)
  case (1 s)
  show ?case
  proof (cases "s = []")
    case True
    then show ?thesis by (simp add: runes_Nil)
  next
    case False
    let ?d = "DecodeRuneInString s"
    show ?thesis
    proof (cases "fst ?d = RuneError")
      case True
      with False have "IndexRuneError s = 0"
        by (subst IndexRuneError.simps) (simp add: split_beta)
      with True runes_unfold [OF False] show ?thesis by simp
    next
      case notErr: False
      let ?i = "IndexRuneError (drop (nat (snd ?d)) s)"
      have w: "0 \<le> snd ?d"
        by (rule decode_width_nonneg)
      from False notErr
      have "IndexRuneError s = (if ?i < 0 then -1 else ?i + snd ?d)"
        by (subst IndexRuneError.simps) (simp add: split_beta Let_def)
      with w have "0 \<le> IndexRuneError s \<longleftrightarrow> 0 \<le> ?i"
        by auto
      also have "\<dots> \<longleftrightarrow> RuneError \<in> set (runes (drop (nat (snd ?d)) s))"
        using "1.IH" [OF False, of ?d "fst ?d" "snd ?d"] notErr by simp
      also have "\<dots> \<longleftrightarrow> RuneError \<in> set (runes s)"
        using runes_unfold [OF False] notErr by auto
      finally show ?thesis .
    qed
  qed
qed

lemma char_of_inj: "n < 256 \<Longrightarrow> m < 256 \<Longrightarrow> char_of n = char_of m \<longleftrightarrow> n = (m::nat)"
proof
  assume "n < 256" "m < 256" "char_of n = char_of m"
  then have "byte (char_of n) = byte (char_of m)"
    by simp
  with \<open>n < 256\<close> \<open>m < 256\<close> show "n = m"
    by (simp add: byte_char_of)
qed simp

lemma ascii_char_byte:
  fixes n :: nat
  assumes "n < 128" and "128 \<le> byte c"
  shows "char_of n \<noteq> c"
proof
  assume "char_of n = c"
  then have "byte c = byte (char_of n)"
    by simp
  also have "\<dots> = n"
    using assms(1) by (simp add: byte_char_of)
  finally show False
    using assms by simp
qed

lemma ascii_rune_iff:
  assumes "n < 128"
  shows "char_of n \<in> set s \<longleftrightarrow> int n \<in> set (runes s)"
proof (induction s rule: runes.induct)
  case (1 s)
  show ?case
  proof (cases "s = []")
    case True
    then show ?thesis by (simp add: runes_Nil)
  next
    case False
    let ?d = "DecodeRuneInString s"
    let ?w = "nat (snd ?d)"
    note st = decode_step [OF False]
    have first: "char_of n \<in> set (take ?w s) \<longleftrightarrow> fst ?d = int n"
      using st(3)
    proof
      assume bad: "fst ?d = RuneError \<and> ?w = 1 \<and> 128 \<le> byte (s ! 0)"
      then have "take ?w s = [s ! 0]"
        using False by (cases s) simp_all
      moreover from bad assms have "char_of n \<noteq> s ! 0"
        by (intro ascii_char_byte) simp_all
      moreover from bad assms have "fst ?d \<noteq> int n"
        by (simp add: RuneError_def)
      ultimately show ?thesis by simp
    next
      assume "\<exists>m. fst ?d = int m \<and> ValidRune (int m) \<and>
        take ?w s = EncodeRune (int m) \<and> ?w = length (EncodeRune (int m))"
      then obtain m where m: "fst ?d = int m" "ValidRune (int m)"
        "take ?w s = EncodeRune (int m)"
        by blast
      show ?thesis
      proof (cases "m < 128")
        case True
        with m(3) have "take ?w s = [char_of m]"
          by (simp add: EncodeRune_1)
        with m(1) True assms show ?thesis
          by (auto simp: char_of_inj)
      next
        case False
        then have "128 \<le> m" by simp
        from encode_bytes [OF m(2) this] m(3)
        have "\<forall>x \<in> set (take ?w s). 128 \<le> byte x"
          by auto
        with assms have "char_of n \<notin> set (take ?w s)"
          using ascii_char_byte [of n] by blast
        with m(1) False assms show ?thesis
          by simp
      qed
    qed
    have "set s = set (take ?w s) \<union> set (drop ?w s)"
      by (metis append_take_drop_id set_append)
    then have "char_of n \<in> set s
        \<longleftrightarrow> char_of n \<in> set (take ?w s) \<or> char_of n \<in> set (drop ?w s)"
      by simp
    also have "\<dots> \<longleftrightarrow> fst ?d = int n \<or> int n \<in> set (runes (drop ?w s))"
      unfolding first "1.IH" [OF False refl prod.collapse] ..
    also have "\<dots> \<longleftrightarrow> int n \<in> set (runes s)"
      unfolding runes_unfold [OF False] by auto
    finally show ?thesis .
  qed
qed

lemma encoded_rune_iff:
  assumes valid: "ValidRune (int n)" and big: "128 \<le> n" and ne: "int n \<noteq> RuneError"
  shows "(\<exists>i \<le> length s. take (length (EncodeRune (int n))) (drop i s) = EncodeRune (int n))
           \<longleftrightarrow> int n \<in> set (runes s)"
proof (induction s rule: runes.induct)
  case (1 s)
  let ?e = "EncodeRune (int n)"
  let ?k = "length ?e"
  from encode_bytes [OF valid big] obtain c cs where e: "?e = c # cs" and lead: "192 \<le> byte c"
    by blast
  show ?case
  proof (cases "s = []")
    case True
    with e show ?thesis by (simp add: runes_Nil)
  next
    case False
    let ?d = "DecodeRuneInString s"
    let ?w = "nat (snd ?d)"
    let ?t = "drop ?w s"
    note st = decode_step [OF False]
    note IH = "1.IH" [OF False refl prod.collapse]
    show ?thesis
    proof
      assume "\<exists>i \<le> length s. take ?k (drop i s) = ?e"
      then obtain i where i: "i \<le> length s" and occ: "take ?k (drop i s) = ?e"
        by blast
      have k: "?k = Suc (length cs)"
        using e by simp
      from occ obtain rest where dr: "drop i s = c # rest"
        unfolding k e by (cases "drop i s") simp_all
      then have si: "i < length s" "s ! i = c"
        by (auto simp: nth_via_drop intro: ccontr)
      consider (start) "i = 0" | (inside) "0 < i" "i < ?w" | (later) "?w \<le> i"
        by linarith
      then show "int n \<in> set (runes s)"
      proof cases
        case start
        with occ have "s = ?e @ drop ?k s"
          by (metis append_take_drop_id drop0)
        then have "DecodeRuneInString s = (int n, int ?k)"
          using decode_encode [OF valid, of "drop ?k s"] by simp
        with runes_unfold [OF False] show ?thesis by simp
      next
        case inside
        from st(3) have False
        proof
          assume "fst ?d = RuneError \<and> ?w = 1 \<and> 128 \<le> byte (s ! 0)"
          with inside show False by simp
        next
          assume "\<exists>m. fst ?d = int m \<and> ValidRune (int m) \<and>
            take ?w s = EncodeRune (int m) \<and> ?w = length (EncodeRune (int m))"
          then obtain m where m: "ValidRune (int m)" "take ?w s = EncodeRune (int m)"
            "?w = length (EncodeRune (int m))"
            by blast
          have "128 \<le> m"
          proof (rule ccontr)
            assume "\<not> 128 \<le> m"
            then have "length (EncodeRune (int m)) = 1"
              by (simp add: EncodeRune_1)
            with m(3) inside show False by simp
          qed
          from encode_bytes [OF m(1) this] obtain c' cs' where
            e': "EncodeRune (int m) = c' # cs'" and cont: "\<forall>x \<in> set cs'. byte x \<le> 191"
            by auto
          from inside have "take ?w s ! i = s ! i"
            by simp
          with m(2) e' inside have "s ! i = cs' ! (i - 1)"
            by (cases i) simp_all
          moreover from m(3) e' inside have "i - 1 < length cs'"
            by (cases i) simp_all
          ultimately have "byte (s ! i) \<le> 191"
            using cont by (metis nth_mem)
          with si(2) lead show False by simp
        qed
        then show ?thesis ..
      next
        case later
        have d: "drop (i - ?w) ?t = drop i s"
          using later by simp
        have "i - ?w \<le> length ?t"
          using i later by simp
        moreover have "take ?k (drop (i - ?w) ?t) = ?e"
          unfolding d by (rule occ)
        ultimately have "\<exists>j \<le> length ?t. take ?k (drop j ?t) = ?e"
          by blast
        then have "int n \<in> set (runes ?t)"
          by (rule IH [THEN iffD1])
        then show ?thesis
          unfolding runes_unfold [OF False] by simp
      qed
    next
      assume "int n \<in> set (runes s)"
      with runes_unfold [OF False]
      consider (head) "fst ?d = int n" | (tail) "int n \<in> set (runes ?t)"
        by auto
      then show "\<exists>i \<le> length s. take ?k (drop i s) = ?e"
      proof cases
        case head
        with st(3) ne obtain m where "int n = int m" "take ?w s = EncodeRune (int m)"
          "?w = length (EncodeRune (int m))"
          by auto
        then have "take ?k (drop 0 s) = ?e"
          by simp
        then show ?thesis by blast
      next
        case tail
        from IH [THEN iffD2, OF tail] obtain j
          where j: "j \<le> length ?t" "take ?k (drop j ?t) = ?e"
          by blast
        have "drop (j + ?w) s = drop j ?t"
          by simp
        with j(2) have "take ?k (drop (j + ?w) s) = ?e"
          by (simp only:)
        moreover from j(1) st(2) have "j + ?w \<le> length s"
          by simp
        ultimately show ?thesis by blast
      qed
    qed
  qed
qed

lemma IndexRune_iff: "0 \<le> IndexRune s r \<longleftrightarrow> r \<in> set (runes s)"
proof -
  consider (ascii) "0 \<le> r" "r < 128" | (err) "r = RuneError"
    | (invalid) "\<not> ValidRune r" "r \<noteq> RuneError" "\<not> (0 \<le> r \<and> r < 128)"
    | (multi) "ValidRune r" "128 \<le> r" "r \<noteq> RuneError"
    by (cases "ValidRune r"; cases "r = RuneError"; cases "r < 128")
      (auto simp: ValidRune_def)
  then show ?thesis
  proof cases
    case ascii
    then obtain n where n: "r = int n" "n < 128"
      using nonneg_int_cases by (metis of_nat_less_iff of_nat_numeral)
    then have "IndexRune s r = IndexByte s (char_of n)"
      by (simp add: IndexRune_def RuneSelf_def chr_def)
    with n ascii_rune_iff [OF n(2), of s] show ?thesis
      by (simp add: IndexByte_nonneg_iff)
  next
    case err
    then have "IndexRune s r = IndexRuneError s"
      by (simp add: IndexRune_def RuneError_def RuneSelf_def del: IndexRuneError.simps)
    with err show ?thesis
      by (simp only: IndexRuneError_iff)
  next
    case invalid
    then have "IndexRune s r = -1"
      by (auto simp: IndexRune_def RuneSelf_def)
    moreover from invalid runes_valid [of r s] have "r \<notin> set (runes s)"
      by auto
    ultimately show ?thesis by simp
  next
    case multi
    then obtain n where n: "r = int n" "128 \<le> n"
      using nonneg_int_cases [of r] by (auto simp: ValidRune_def)
    with multi have "IndexRune s r = Index s (EncodeRune (int n))"
      by (simp add: IndexRune_def RuneSelf_def)
    with n multi encoded_rune_iff [of n s] show ?thesis
      by (simp add: Index_nonneg_iff)
  qed
qed

section \<open>Printing a token\<close>

text \<open>
  C10: \<open>String\<close> returns the literal \<open>EOF\<close> for the end-of-input type -1, the text
  itself for the error type -2, and otherwise the quoted text; when the text is longer
  than 10 bytes, what is quoted is the text cut to its first 10 characters (the first 10
  runes that decoding it yields, a prefix of the text) and \<open>...\<close> follows the quoted form.
\<close>

theorem Token_String:
  "String quote t =
     (if Typ t = -1 then ''EOF''
      else if Typ t = -2 then Val t
      else if 10 < length (Val t) then quote (truncateString 10 (Val t)) @ ''...''
      else quote (Val t)) \<and>
   runes (truncateString 10 (Val t)) = take 10 (runes (Val t)) \<and>
   (\<exists>k. truncateString 10 (Val t) = take k (Val t))"
  by (simp add: String_def TokenEOF_def TokenError_def runes_truncateString
      truncateString_take)

theorem Token_String_witness:
  "String (\<lambda>s. ''<'' @ s @ ''>'') \<lparr>Typ = -1, Val = '''', Pos = 6\<rparr> = ''EOF'' \<and>
   String (\<lambda>s. ''<'' @ s @ ''>'') \<lparr>Typ = -2, Val = ''bad input'', Pos = 2\<rparr> = ''bad input'' \<and>
   String (\<lambda>s. ''<'' @ s @ ''>'') \<lparr>Typ = 1, Val = ''23'', Pos = 4\<rparr> = ''<23>'' \<and>
   String (\<lambda>s. ''<'' @ s @ ''>'') \<lparr>Typ = 1, Val = ''hello, world'', Pos = 0\<rparr>
     = ''<hello, wor>...''"
  using Token_String [of "\<lambda>s. ''<'' @ s @ ''>''" "\<lparr>Typ = -1, Val = '''', Pos = 6\<rparr>"]
    Token_String [of "\<lambda>s. ''<'' @ s @ ''>''" "\<lparr>Typ = -2, Val = ''bad input'', Pos = 2\<rparr>"]
    Token_String [of "\<lambda>s. ''<'' @ s @ ''>''" "\<lparr>Typ = 1, Val = ''23'', Pos = 4\<rparr>"]
    Token_String [of "\<lambda>s. ''<'' @ s @ ''>''" "\<lparr>Typ = 1, Val = ''hello, world'', Pos = 0\<rparr>"]
    truncateString_ascii [of "''hello, world''" 10]
  by (simp add: byte_def)

section \<open>Accepting a run\<close>

text \<open>For an ASCII rune, belonging to \<open>valid\<close> is being one of its bytes.\<close>

lemma IndexRune_ascii:
  "0 \<le> r \<Longrightarrow> r < 128 \<Longrightarrow> 0 \<le> IndexRune valid r \<longleftrightarrow> chr r \<in> set valid"
  by (simp add: IndexRune_def RuneSelf_def IndexByte_nonneg_iff)

lemma runes_slice_step:
  assumes "0 \<le> p" and "p < int (length s)"
    and d: "DecodeRuneInString (drop (nat p) s) = (r, w)" and "p + w \<le> q"
  shows "runes (slice s p q) = r # runes (slice s (p + w) q)"
proof -
  let ?t = "drop (nat p) s"
  let ?k = "nat (q - p)"
  have ne: "?t \<noteq> []"
    using assms(1,2) by simp
  have w1: "1 \<le> w"
    using decode_width_pos [OF ne] d by simp
  have wlen: "w \<le> int (length ?t)"
    using decode_width_le [of ?t] d by simp
  have k: "nat w \<le> ?k" "0 < ?k"
    using w1 assms(4) by simp_all
  have dk: "DecodeRuneInString (take ?k ?t) = (r, w)"
    using decode_take [of ?t ?k] k d by simp
  have "take ?k ?t \<noteq> []"
    using ne k by simp
  from runes_step [OF this] dk
  have "runes (take ?k ?t) = r # runes (drop (nat w) (take ?k ?t))"
    by simp
  moreover have "drop (nat w) (take ?k ?t) = take (nat (q - (p + w))) (drop (nat (p + w)) s)"
    using w1 assms(1,4) by (simp add: drop_take nat_add_distrib nat_diff_distrib' add.commute)
  ultimately show ?thesis
    by (simp add: slice_def)
qed

lemma Next_Width_Pos: "Next (l\<lparr>Width := w, Pos := p\<rparr>) = Next (l\<lparr>Pos := p\<rparr>)"
  by (simp add: Next_def split: prod.splits)

lemma AcceptRun_loop_run:
  assumes "0 \<le> Lexer.Pos l"
  shows "\<exists>p w r. AcceptRun_loop valid l = Inr (l\<lparr>Width := w, Pos := p + w\<rparr>) \<and>
           Lexer.Pos l \<le> p \<and>
           (Lexer.Pos l \<le> int (length (input l)) \<longrightarrow> p \<le> int (length (input l))) \<and>
           Next (l\<lparr>Pos := p\<rparr>) = Inr (r, l\<lparr>Width := w, Pos := p + w\<rparr>) \<and>
           IndexRune valid r < 0 \<and>
           runes (slice (input l) (Lexer.Pos l) p)
             = takeWhile (\<lambda>r. 0 \<le> IndexRune valid r)
                 (runes (drop (nat (Lexer.Pos l)) (input l)))"
  using assms
proof (induction valid l rule: AcceptRun_loop.induct)
  case (1 valid l)
  show ?case
  proof (cases "Lexer.Pos l < int (length (input l))")
    case False
    then have n: "Next l = Inr (EOF, l\<lparr>Width := 0\<rparr>)"
      by (simp add: Next_at_end)
    have same: "l\<lparr>Width := 0\<rparr> = l\<lparr>Width := 0, Pos := Lexer.Pos l + 0\<rparr>" "l\<lparr>Pos := Lexer.Pos l\<rparr> = l"
      by simp_all
    have "AcceptRun_loop valid l = Inr (l\<lparr>Width := 0, Pos := Lexer.Pos l + 0\<rparr>)"
      using n IndexRune_EOF [of valid] by (subst AcceptRun_loop.simps) simp
    moreover have "Next (l\<lparr>Pos := Lexer.Pos l\<rparr>) = Inr (EOF, l\<lparr>Width := 0, Pos := Lexer.Pos l + 0\<rparr>)"
      using n by simp
    moreover have "IndexRune valid EOF < 0"
      by (simp add: IndexRune_EOF)
    moreover have "runes (slice (input l) (Lexer.Pos l) (Lexer.Pos l)) = []"
      by (simp add: slice_def runes_Nil)
    moreover have "runes (drop (nat (Lexer.Pos l)) (input l)) = []"
      using False "1.prems" by (simp add: runes_Nil)
    ultimately show ?thesis
      using False by (intro exI [of _ "Lexer.Pos l"] exI [of _ 0] exI [of _ EOF]) simp
  next
    case True
    let ?s = "drop (nat (Lexer.Pos l)) (input l)"
    let ?r = "fst (decode_at l)"
    let ?w = "snd (decode_at l)"
    let ?l1 = "l\<lparr>Width := ?w, Pos := Lexer.Pos l + ?w\<rparr>"
    have n: "Next l = Inr (?r, ?l1)"
      using "1.prems" True by (rule Next_inside)
    have w: "1 \<le> ?w" "Lexer.Pos l + ?w \<le> int (length (input l))"
      using decode_at_width [OF "1.prems" True] by simp_all
    have ne: "?s \<noteq> []"
      using "1.prems" True by simp
    have rs: "runes ?s = ?r # runes (drop (nat (Lexer.Pos l + ?w)) (input l))"
      using runes_step [OF ne] "1.prems" w
      by (simp add: decode_at_def nat_add_distrib add.commute)
    show ?thesis
    proof (cases "0 \<le> IndexRune valid ?r")
      case False
      have "AcceptRun_loop valid l = Inr (l\<lparr>Width := ?w, Pos := Lexer.Pos l + ?w\<rparr>)"
        using n False by (subst AcceptRun_loop.simps) simp
      moreover have "Next (l\<lparr>Pos := Lexer.Pos l\<rparr>) = Inr (?r, ?l1)"
        using n by simp
      moreover have "runes (slice (input l) (Lexer.Pos l) (Lexer.Pos l)) = []"
        by (simp add: slice_def runes_Nil)
      ultimately show ?thesis
        using False True rs
        by (intro exI [of _ "Lexer.Pos l"] exI [of _ ?w] exI [of _ ?r]) simp
    next
      case belongs: True
      have "0 \<le> Lexer.Pos ?l1"
        using "1.prems" w by simp
      from "1.IH" [OF n refl belongs this]
      obtain p w' r' where
        loop: "AcceptRun_loop valid ?l1 = Inr (?l1\<lparr>Width := w', Pos := p + w'\<rparr>)"
        and p: "Lexer.Pos ?l1 \<le> p"
        and pl: "p \<le> int (length (input l))"
        and nx: "Next (?l1\<lparr>Pos := p\<rparr>) = Inr (r', ?l1\<lparr>Width := w', Pos := p + w'\<rparr>)"
        and bad: "IndexRune valid r' < 0"
        and run: "runes (slice (input ?l1) (Lexer.Pos ?l1) p)
                    = takeWhile (\<lambda>r. 0 \<le> IndexRune valid r)
                        (runes (drop (nat (Lexer.Pos ?l1)) (input ?l1)))"
        using w by auto
      have "AcceptRun_loop valid l = Inr (l\<lparr>Width := w', Pos := p + w'\<rparr>)"
        using n belongs loop by (subst AcceptRun_loop.simps) simp
      moreover have "Next (l\<lparr>Pos := p\<rparr>) = Inr (r', l\<lparr>Width := w', Pos := p + w'\<rparr>)"
        using nx by (simp add: Next_Width_Pos)
      moreover have "runes (slice (input l) (Lexer.Pos l) p)
          = ?r # runes (slice (input l) (Lexer.Pos l + ?w) p)"
        using "1.prems" True p by (intro runes_slice_step) (simp_all add: decode_at_def)
      ultimately show ?thesis
        using p pl w bad run rs belongs
        by (intro exI [of _ p] exI [of _ w'] exI [of _ r']) simp
    qed
  qed
qed

lemma slice_append:
  assumes "a \<le> b" and "b \<le> c" and "0 \<le> a"
  shows "slice s a c = slice s a b @ slice s b c"
proof -
  have "nat (c - a) = nat (b - a) + nat (c - b)"
    using assms by simp
  moreover have "drop (nat (b - a)) (drop (nat a) s) = drop (nat b) s"
    using assms by (simp add: nat_diff_distrib')
  ultimately show ?thesis
    by (simp add: slice_def take_add)
qed

lemma AcceptRun_result:
  assumes "0 \<le> Lexer.Pos l"
  shows "\<exists>p w. AcceptRun valid l = Inr (l\<lparr>Width := w, Pos := p\<rparr>) \<and> Lexer.Pos l \<le> p \<and>
           (Lexer.Pos l \<le> int (length (input l)) \<longrightarrow> p \<le> int (length (input l)))"
proof -
  from AcceptRun_loop_run [OF assms, of valid]
  obtain p w where "AcceptRun_loop valid l = Inr (l\<lparr>Width := w, Pos := p + w\<rparr>)"
    and "Lexer.Pos l \<le> p"
    and "Lexer.Pos l \<le> int (length (input l)) \<longrightarrow> p \<le> int (length (input l))"
    by blast
  moreover from this(1) have "AcceptRun valid l = Inr (l\<lparr>Width := w, Pos := p\<rparr>)"
    by (simp add: AcceptRun_def Backup_def)
  ultimately show ?thesis by blast
qed

text \<open>
  C6: from any non-negative scan offset \<open>AcceptRun valid\<close> returns, and changes only
  \<open>Pos\<close> and \<open>Width\<close>. The new offset \<open>p\<close> is not before the old one, and the
  runes of the text between them are exactly the longest prefix of the runes of the
  remaining input that all belong to \<open>valid\<close>: they are among the runes of \<open>valid\<close>,
  which is what the test \<open>strings.IndexRune(valid, r) >= 0\<close> of the source decides. So
  each of them belongs to \<open>valid\<close>. The decode that ended the run is the one \<open>Next\<close>
  makes at \<open>p\<close>: its rune \<open>r\<close> does not belong to \<open>valid\<close> (it is \<open>EOF\<close> at the end
  of the input), its width is left in \<open>Width\<close>, and it has been backed up, so the scan
  offset is just past the last matching character. An \<open>Emit\<close> right after the run
  sends the text that was pending before the run followed by the text of the run.
\<close>

theorem AcceptRun_maximal_run:
  assumes "0 \<le> Lexer.Pos l"
  shows "\<exists>p w r. AcceptRun valid l = Inr (l\<lparr>Width := w, Pos := p\<rparr>) \<and>
           Lexer.Pos l \<le> p \<and>
           (Lexer.Pos l \<le> int (length (input l)) \<longrightarrow> p \<le> int (length (input l))) \<and>
           Next (l\<lparr>Pos := p\<rparr>) = Inr (r, l\<lparr>Width := w, Pos := p + w\<rparr>) \<and>
           IndexRune valid r < 0 \<and> r \<notin> set (runes valid) \<and>
           runes (slice (input l) (Lexer.Pos l) p)
             = takeWhile (\<lambda>r. r \<in> set (runes valid))
                 (runes (drop (nat (Lexer.Pos l)) (input l))) \<and>
           (\<forall>r \<in> set (runes (slice (input l) (Lexer.Pos l) p)).
              0 \<le> IndexRune valid r \<and> r \<in> set (runes valid)) \<and>
           (slice_ok (input l) (Start l) (Lexer.Pos l) \<and> length (tokens l) < chan_cap \<longrightarrow>
              Emit t (l\<lparr>Width := w, Pos := p\<rparr>)
                = Inr (l\<lparr>Width := w, Pos := p,
                       tokens := tokens l @
                         [\<lparr>Typ = t,
                           Val = slice (input l) (Start l) (Lexer.Pos l)
                                   @ slice (input l) (Lexer.Pos l) p,
                           Pos = Start l\<rparr>],
                       Start := p\<rparr>))"
proof -
  let ?B = "\<lambda>r. r \<in> set (runes valid)"
  from AcceptRun_loop_run [OF assms, of valid]
  obtain p w r where
    loop: "AcceptRun_loop valid l = Inr (l\<lparr>Width := w, Pos := p + w\<rparr>)"
    and p: "Lexer.Pos l \<le> p"
    and pl: "Lexer.Pos l \<le> int (length (input l)) \<longrightarrow> p \<le> int (length (input l))"
    and nx: "Next (l\<lparr>Pos := p\<rparr>) = Inr (r, l\<lparr>Width := w, Pos := p + w\<rparr>)"
    and bad: "IndexRune valid r < 0"
    and run': "runes (slice (input l) (Lexer.Pos l) p)
                = takeWhile (\<lambda>r. 0 \<le> IndexRune valid r)
                    (runes (drop (nat (Lexer.Pos l)) (input l)))"
    by blast
  have run: "runes (slice (input l) (Lexer.Pos l) p)
      = takeWhile ?B (runes (drop (nat (Lexer.Pos l)) (input l)))"
    using run' by (simp only: IndexRune_iff)
  have bad': "r \<notin> set (runes valid)"
    using bad IndexRune_iff [of valid r] by simp
  have res: "AcceptRun valid l = Inr (l\<lparr>Width := w, Pos := p\<rparr>)"
    using loop by (simp add: AcceptRun_def Backup_def)
  have "\<forall>r \<in> set (runes (slice (input l) (Lexer.Pos l) p)). ?B r"
    unfolding run by (auto dest: set_takeWhileD)
  then have all: "\<forall>r \<in> set (runes (slice (input l) (Lexer.Pos l) p)).
      0 \<le> IndexRune valid r \<and> r \<in> set (runes valid)"
    by (simp add: IndexRune_iff)
  have emit: "Emit t (l\<lparr>Width := w, Pos := p\<rparr>)
      = Inr (l\<lparr>Width := w, Pos := p,
             tokens := tokens l @
               [\<lparr>Typ = t,
                 Val = slice (input l) (Start l) (Lexer.Pos l) @ slice (input l) (Lexer.Pos l) p,
                 Pos = Start l\<rparr>],
             Start := p\<rparr>)"
    if ok: "slice_ok (input l) (Start l) (Lexer.Pos l)" and room: "length (tokens l) < chan_cap"
  proof -
    from ok have b: "0 \<le> Start l" "Start l \<le> Lexer.Pos l" "Lexer.Pos l \<le> int (length (input l))"
      by (simp_all add: slice_ok_def)
    with p pl have "slice_ok (input l) (Start l) p"
      by (simp add: slice_ok_def)
    moreover have "slice (input l) (Start l) p
        = slice (input l) (Start l) (Lexer.Pos l) @ slice (input l) (Lexer.Pos l) p"
      using b p by (intro slice_append) simp_all
    ultimately show ?thesis
      using room by (simp add: Emit_def send_def)
  qed
  show ?thesis
    apply (rule exI [of _ p], rule exI [of _ w], rule exI [of _ r])
    using res p pl nx bad bad' run all emit by simp
qed

theorem AcceptRun_maximal_run_witness:
  "0 \<le> Lexer.Pos (lexer (NewLexer ''t'' ''12ab'' (Some ()))) \<and>
   AcceptRun ''0123456789'' (lexer (NewLexer ''t'' ''12ab'' (Some ())))
     = Inr ((lexer (NewLexer ''t'' ''12ab'' (Some ())))\<lparr>Width := 1, Pos := 2\<rparr>) \<and>
   slice ''12ab'' 0 2 = ''12'' \<and> runes ''12'' = [49, 50] \<and>
   49 \<in> set (runes ''0123456789'') \<and> 50 \<in> set (runes ''0123456789'')"
proof -
  let ?l = "lexer (NewLexer ''t'' ''12ab'' (Some ()))"
  have h: "0 \<le> Lexer.Pos ?l"
    by (simp add: NewLexer_def)
  have v: "AcceptRun ''0123456789'' ?l = Inr (?l\<lparr>Width := 1, Pos := 2\<rparr>)"
    by code_simp
  from AcceptRun_maximal_run [OF h, of "''0123456789''" 1]
  obtain p w where
    "AcceptRun ''0123456789'' ?l = Inr (?l\<lparr>Width := w, Pos := p\<rparr>)"
    and r: "\<forall>r \<in> set (runes (slice (input ?l) (Lexer.Pos ?l) p)).
              0 \<le> IndexRune ''0123456789'' r \<and> r \<in> set (runes ''0123456789'')"
    by blast
  with v have "?l\<lparr>Width := w, Pos := p\<rparr> = ?l\<lparr>Width := 1, Pos := 2\<rparr>"
    by simp
  then have "Lexer.Pos (?l\<lparr>Width := w, Pos := p\<rparr>) = Lexer.Pos (?l\<lparr>Width := 1, Pos := 2\<rparr>)"
    by (rule arg_cong)
  then have "p = 2"
    by simp
  with r have "\<forall>r \<in> set (runes (slice ''12ab'' 0 2)). r \<in> set (runes ''0123456789'')"
    by (simp add: NewLexer_def)
  moreover have "slice ''12ab'' 0 2 = ''12''"
    by (simp add: slice_def)
  moreover have "runes ''12'' = [49, 50]"
    by code_simp
  ultimately show ?thesis
    using h v by simp
qed

section \<open>The driver\<close>

lemma NextToken_receive:
  "tokens l = t # rest \<Longrightarrow>
   NextToken g l = Some (Inr (t, l\<lparr>tokens := rest, lastPos := Token.Pos t\<rparr>))"
  by (subst NextToken.simps) simp

lemma NextToken_nil_state:
  "tokens l = [] \<Longrightarrow> state l = None \<Longrightarrow> NextToken g l = Some (Inl NilStateFn)"
  by (subst NextToken.simps) simp

lemma NextToken_drive:
  "tokens l = [] \<Longrightarrow> state l = Some q \<Longrightarrow> g q l = Inr (st, l') \<Longrightarrow>
   NextToken g l = NextToken g (l'\<lparr>state := st\<rparr>)"
  by (subst NextToken.simps) simp

lemma NextToken_drive_fails:
  "tokens l = [] \<Longrightarrow> state l = Some q \<Longrightarrow> g q l = Inl e \<Longrightarrow>
   NextToken g l = Some (Inl e)"
  by (subst NextToken.simps) simp

lemma run_loop_nil: "run_loop g None l = Some (Inr l)"
  by (subst run_loop.simps) simp

lemma NextTokens_drain:
  "NextTokens (length (tokens l)) g l
     = Some (Inr (tokens l,
          l\<lparr>tokens := [],
            lastPos := (if tokens l = [] then lastPos l else Token.Pos (last (tokens l)))\<rparr>))"
proof (induction "tokens l" arbitrary: l)
  case Nil
  then show ?case by simp
next
  case (Cons t rest)
  let ?l' = "l\<lparr>tokens := rest, lastPos := Token.Pos t\<rparr>"
  from Cons.hyps(2) have tl: "tokens l = t # rest"
    by simp
  then have nt: "NextToken g l = Some (Inr (t, ?l'))"
    by (rule NextToken_receive)
  have "rest = tokens ?l'"
    by simp
  from Cons.hyps(1) [OF this]
  have "NextTokens (length rest) g ?l'
      = Some (Inr (rest, l\<lparr>tokens := [],
            lastPos := (if rest = [] then Token.Pos t else Token.Pos (last rest))\<rparr>))"
    by simp
  with nt tl show ?case
    by simp
qed

lemma Errorf_sends:
  "length (tokens l) < chan_cap \<Longrightarrow>
   Errorf Sprintf format args l
     = Inr (None, l\<lparr>tokens := tokens l @
              [\<lparr>Typ = TokenError, Val = Sprintf format args, Pos = Start l\<rparr>]\<rparr>)"
  by (simp add: Errorf_def send_def)

lemma NextToken_passes:
  "NextToken g l =
     (case NextToken_pass g l of
        Inl e \<Rightarrow> Some (Inl e)
      | Inr (None, l') \<Rightarrow> NextToken g l'
      | Inr (Some t, l') \<Rightarrow> Some (Inr (t, l')))"
  by (subst NextToken.simps)
    (simp add: NextToken_pass_def split: list.splits option.splits sum.splits prod.splits)

lemma run_step_pass:
  assumes "run_step g \<lparr>lexer = l, task = loop_test st\<rparr> = Inr \<lparr>lexer = l', task = loop_test st'\<rparr>"
  shows "run_loop g st l = run_loop g st' l'"
proof (cases st)
  case None
  with assms have "l' = l" and "loop_test st' = Ended"
    by (simp_all add: run_step_def loop_test_def)
  then have "st' = None"
    by (cases st') (simp_all add: loop_test_def)
  with None \<open>l' = l\<close> show ?thesis
    by simp
next
  case (Some q)
  with assms obtain st1 where g: "g q l = Inr (st1, l')" and "loop_test st1 = loop_test st'"
    by (auto simp: run_step_def loop_test_def split: sum.splits)
  then have "st1 = st'"
    by (cases st1; cases st') (simp_all add: loop_test_def)
  with g Some show ?thesis
    by (subst run_loop.simps) simp
qed

lemma Errorf_ends_run:
  assumes "task p = Looping q" and "g q (lexer p) = Errorf Sprintf format args l1"
    and "length (tokens l1) < chan_cap"
  shows "run_step g p
           = Inr \<lparr>lexer = l1\<lparr>tokens := tokens l1 @
                     [\<lparr>Typ = TokenError, Val = Sprintf format args, Pos = Start l1\<rparr>]\<rparr>,
                  task = Ended\<rparr>"
  using assms by (simp add: run_step_def Errorf_sends loop_test_def)

text \<open>
  The calls of \<open>NextToken\<close> that the consumer makes while the background task does
  not move are a schedule: each call is a number of consecutive moves of the consumer.
\<close>

lemma scan_append:
  "scan g (ds1 @ ds2) p =
     (case scan g ds1 p of
        Inl e \<Rightarrow> Inl e
      | Inr (ts1, p1) \<Rightarrow>
          (case scan g ds2 p1 of Inl e \<Rightarrow> Inl e | Inr (ts2, p2) \<Rightarrow> Inr (ts1 @ ts2, p2)))"
proof (induction ds1 arbitrary: p)
  case Nil
  show ?case by (simp split: sum.splits)
next
  case (Cons d ds1)
  show ?case
  proof (cases d)
    case Background
    then show ?thesis
      by (simp add: Cons.IH split: sum.splits)
  next
    case Consumer
    then show ?thesis
      by (simp add: Cons.IH split: sum.splits prod.splits option.splits)
  qed
qed

lemma NextToken_is_scan:
  assumes "NextToken g l = Some y" and "y = Inr (t, l')"
  shows "\<exists>k. scan g (replicate k Consumer) \<lparr>lexer = l, task = a\<rparr>
               = Inr ([t], \<lparr>lexer = l', task = a\<rparr>)"
  using assms
proof (induction rule: NextToken.raw_induct [rotated 1, consumes 1])
  case (1 NextToken' g l y)
  show ?case
  proof (cases "tokens l")
    case (Cons t0 rest)
    with "1.hyps" "1.prems" have "t0 = t" and "l' = l\<lparr>tokens := rest, lastPos := Token.Pos t\<rparr>"
      by auto
    with Cons have "scan g (replicate 1 Consumer) \<lparr>lexer = l, task = a\<rparr>
        = Inr ([t], \<lparr>lexer = l', task = a\<rparr>)"
      by (simp add: NextToken_pass_def)
    then show ?thesis ..
  next
    case Nil
    with "1.hyps" "1.prems" obtain q st l1 where st: "state l = Some q" and g: "g q l = Inr (st, l1)"
      and nxt: "NextToken' g (l1\<lparr>state := st\<rparr>) = Some y"
      by (auto split: option.splits sum.splits)
    from "1.IH" [OF nxt "1.prems"] obtain k
      where k: "scan g (replicate k Consumer) \<lparr>lexer = l1\<lparr>state := st\<rparr>, task = a\<rparr>
                  = Inr ([t], \<lparr>lexer = l', task = a\<rparr>)" ..
    from Nil st g have "NextToken_pass g l = Inr (None, l1\<lparr>state := st\<rparr>)"
      by (simp add: NextToken_pass_def)
    with k have "scan g (replicate (Suc k) Consumer) \<lparr>lexer = l, task = a\<rparr>
        = Inr ([t], \<lparr>lexer = l', task = a\<rparr>)"
      by simp
    then show ?thesis ..
  qed
qed

lemma NextTokens_is_scan:
  assumes "NextTokens n g l = Some (Inr (ts, l'))"
  shows "\<exists>k. scan g (replicate k Consumer) \<lparr>lexer = l, task = a\<rparr>
               = Inr (ts, \<lparr>lexer = l', task = a\<rparr>)"
  using assms
proof (induction n arbitrary: l ts)
  case 0
  then have "scan g (replicate 0 Consumer) \<lparr>lexer = l, task = a\<rparr>
      = Inr (ts, \<lparr>lexer = l', task = a\<rparr>)"
    by simp
  then show ?case ..
next
  case (Suc n)
  from Suc.prems obtain t l1 ts' where nt: "NextToken g l = Some (Inr (t, l1))"
    and rest: "NextTokens n g l1 = Some (Inr (ts', l'))" and ts: "ts = t # ts'"
    by (auto split: option.splits sum.splits)
  from NextToken_is_scan [OF nt refl] obtain k1
    where k1: "scan g (replicate k1 Consumer) \<lparr>lexer = l, task = a\<rparr>
                 = Inr ([t], \<lparr>lexer = l1, task = a\<rparr>)" ..
  from Suc.IH [OF rest] obtain k2
    where k2: "scan g (replicate k2 Consumer) \<lparr>lexer = l1, task = a\<rparr>
                 = Inr (ts', \<lparr>lexer = l', task = a\<rparr>)" ..
  have "scan g (replicate (k1 + k2) Consumer) \<lparr>lexer = l, task = a\<rparr>
      = Inr (ts, \<lparr>lexer = l', task = a\<rparr>)"
    by (simp add: replicate_add scan_append k1 k2 ts)
  then show ?case ..
qed

text \<open>
  C2, as the code has it. While a token is buffered, \<open>NextToken\<close> returns the oldest
  buffered token and invokes no state function: the result does not depend on the
  grammar. When \<open>NextToken\<close> itself runs the state function that sends the terminal
  token and returns \<open>nil\<close>, it returns that token and leaves \<open>l.state\<close> \<open>nil\<close>; the
  next call then finds the buffer empty and returns no token: it calls the nil state and
  panics, as every call does that finds the buffer empty and \<open>l.state\<close> \<open>nil\<close>.
\<close>

theorem NextToken_after_end:
  "(tokens l = t # rest \<longrightarrow>
      NextToken g l = Some (Inr (t, l\<lparr>tokens := rest, lastPos := Token.Pos t\<rparr>))) \<and>
   (tokens l = [] \<and> state l = Some q \<and> g q l = Inr (None, l1) \<and> tokens l1 = [t] \<longrightarrow>
      NextToken g l
        = Some (Inr (t, l1\<lparr>state := None, tokens := [], lastPos := Token.Pos t\<rparr>)) \<and>
      NextToken g (l1\<lparr>state := None, tokens := [], lastPos := Token.Pos t\<rparr>)
        = Some (Inl NilStateFn)) \<and>
   (tokens l = [] \<and> state l = None \<longrightarrow> NextToken g l = Some (Inl NilStateFn))"
proof (intro conjI impI)
  assume "tokens l = t # rest"
  then show "NextToken g l = Some (Inr (t, l\<lparr>tokens := rest, lastPos := Token.Pos t\<rparr>))"
    by (rule NextToken_receive)
next
  assume "tokens l = [] \<and> state l = None"
  then show "NextToken g l = Some (Inl NilStateFn)"
    by (simp add: NextToken_nil_state)
next
  let ?end = "l1\<lparr>state := None, tokens := [], lastPos := Token.Pos t\<rparr>"
  show "NextToken g ?end = Some (Inl NilStateFn)"
    by (simp add: NextToken_nil_state)
  assume a: "tokens l = [] \<and> state l = Some q \<and> g q l = Inr (None, l1) \<and> tokens l1 = [t]"
  then have "NextToken g l = NextToken g (l1\<lparr>state := None\<rparr>)"
    by (simp add: NextToken_drive)
  also from a have "\<dots> = Some (Inr (t, l1\<lparr>state := None, tokens := [], lastPos := Token.Pos t\<rparr>))"
    by (simp add: NextToken_receive)
  finally show "NextToken g l = Some (Inr (t, ?end))" .
qed

theorem NextToken_after_end_witness:
  "scan (lexExpr False) [Background, Background] (NewLexer ''t'' '''' (Some ()))
     = Inr ([], \<lparr>lexer = (lexer (NewLexer ''t'' '''' (Some ())))
                            \<lparr>tokens := [\<lparr>Typ = -1, Val = '''', Pos = 0\<rparr>]\<rparr>,
                 task = Ended\<rparr>) \<and>
   NextToken (lexExpr False)
       ((lexer (NewLexer ''t'' '''' (Some ())))\<lparr>tokens := [\<lparr>Typ = -1, Val = '''', Pos = 0\<rparr>]\<rparr>)
     = Some (Inr (\<lparr>Typ = -1, Val = '''', Pos = 0\<rparr>, lexer (NewLexer ''t'' '''' (Some ())))) \<and>
   lexExpr False () (lexer (NewLexer ''t'' '''' (Some ())))
     = Inr (None, (lexer (NewLexer ''t'' '''' (Some ())))
                    \<lparr>tokens := [\<lparr>Typ = -1, Val = '''', Pos = 0\<rparr>]\<rparr>) \<and>
   NextToken (lexExpr False) (lexer (NewLexer ''t'' '''' (Some ())))
     = Some (Inr (\<lparr>Typ = -1, Val = '''', Pos = 0\<rparr>, lexer (NewLexer ''t'' '''' None))) \<and>
   NextToken (lexExpr False) (lexer (NewLexer ''t'' '''' None)) = Some (Inl NilStateFn)"
proof -
  let ?l = "lexer (NewLexer ''t'' '''' (Some ()))"
  let ?eof = "\<lparr>Typ = -1, Val = '''', Pos = 0\<rparr>"
  let ?l1 = "?l\<lparr>tokens := [?eof]\<rparr>"
  have bg: "scan (lexExpr False) [Background, Background] (NewLexer ''t'' '''' (Some ()))
      = Inr ([], \<lparr>lexer = ?l1, task = Ended\<rparr>)"
    by code_simp
  have body: "lexExpr False () ?l = Inr (None, ?l1)"
    by code_simp
  have st: "tokens ?l = []" "state ?l = Some ()" "tokens ?l1 = [?eof]"
    by (simp_all add: NewLexer_def)
  have e: "?l1\<lparr>state := None, tokens := [], lastPos := Token.Pos ?eof\<rparr>
      = lexer (NewLexer ''t'' '''' None)"
    "?l1\<lparr>tokens := [], lastPos := Token.Pos ?eof\<rparr> = ?l"
    by (simp_all add: NewLexer_def)
  from NextToken_after_end [of ?l1 ?eof "[]" "lexExpr False"] st e
  have buffered: "NextToken (lexExpr False) ?l1 = Some (Inr (?eof, ?l))"
    by simp
  from NextToken_after_end [of ?l ?eof "[]" "lexExpr False" "()" ?l1] st e body
  have "NextToken (lexExpr False) ?l = Some (Inr (?eof, lexer (NewLexer ''t'' '''' None)))"
    and "NextToken (lexExpr False) (lexer (NewLexer ''t'' '''' None)) = Some (Inl NilStateFn)"
    by simp_all
  with bg buffered body show ?thesis
    by simp
qed

text \<open>
  C2 does not hold as the specification words it. On the empty input, with the consumer
  moving first, the first call of \<open>NextToken\<close> runs the state function, returns the
  end-of-input token and leaves the state \<open>nil\<close>; the second call does not return a
  terminal token again, it panics.
\<close>

theorem NextToken_after_EOF_panics:
  "NextToken (lexExpr False) (lexer (NewLexer ''t'' '''' (Some ())))
     = Some (Inr (\<lparr>Typ = TokenEOF, Val = '''', Pos = 0\<rparr>, lexer (NewLexer ''t'' '''' None))) \<and>
   NextToken (lexExpr False) (lexer (NewLexer ''t'' '''' None)) = Some (Inl NilStateFn)"
  by code_simp

text \<open>
  With the background task moving first the panic comes one call later. The task runs
  the state function, which sends the end-of-input token and returns \<open>nil\<close>, and the
  task ends; \<open>l.state\<close> is still the start state. The first call of \<open>NextToken\<close>
  receives the token. The second finds the buffer empty, runs the start state once more
  and returns a second end-of-input token; the third panics.
\<close>

lemma terminal_token_twice:
  "scan (lexExpr False) [Background, Background] (NewLexer ''t'' '''' (Some ()))
     = Inr ([], \<lparr>lexer = (lexer (NewLexer ''t'' '''' (Some ())))
                            \<lparr>tokens := [\<lparr>Typ = TokenEOF, Val = '''', Pos = 0\<rparr>]\<rparr>,
                 task = Ended\<rparr>) \<and>
   NextTokens 2 (lexExpr False)
       ((lexer (NewLexer ''t'' '''' (Some ())))
          \<lparr>tokens := [\<lparr>Typ = TokenEOF, Val = '''', Pos = 0\<rparr>]\<rparr>)
     = Some (Inr ([\<lparr>Typ = TokenEOF, Val = '''', Pos = 0\<rparr>, \<lparr>Typ = TokenEOF, Val = '''', Pos = 0\<rparr>],
                  lexer (NewLexer ''t'' '''' None))) \<and>
   NextTokens 3 (lexExpr False)
       ((lexer (NewLexer ''t'' '''' (Some ())))
          \<lparr>tokens := [\<lparr>Typ = TokenEOF, Val = '''', Pos = 0\<rparr>]\<rparr>)
     = Some (Inl NilStateFn)"
  by code_simp

text \<open>
  C5 fails on the code. \<open>Errorf\<close> sends one token of the error type and returns
  \<open>nil\<close>, and that ends the loop of \<open>run\<close> (\<open>Errorf_sends\<close>, \<open>Errorf_ends_run\<close>).
  It does not end the scan. On the input \<open>#cd\<close>, with the grammar of the error
  scenario and the background task moving first, the task calls the state function,
  \<open>Errorf\<close> sends the error token, and the task ends with \<open>l.state\<close> still the start
  state. The first call of \<open>NextToken\<close> receives the token; the second finds the
  buffer empty and runs the start state again, \<open>Errorf\<close> is called a second time, and
  a second error token is delivered.
\<close>

theorem Errorf_token_delivered_twice:
  "scan (lexIdent (\<lambda>format r. take 21 format @ [CHR 0x27, chr r, CHR 0x27]))
       [Background, Background] (NewLexer ''t'' ''#cd'' (Some ()))
     = Inr ([], \<lparr>lexer = (lexer (NewLexer ''t'' ''#cd'' (Some ())))
                   \<lparr>Width := 1,
                    tokens := [\<lparr>Typ = TokenError,
                                 Val = ''unexpected character '' @ [CHR 0x27, CHR ''#'', CHR 0x27],
                                 Pos = 0\<rparr>]\<rparr>,
                 task = Ended\<rparr>) \<and>
   NextTokens 2 (lexIdent (\<lambda>format r. take 21 format @ [CHR 0x27, chr r, CHR 0x27]))
       ((lexer (NewLexer ''t'' ''#cd'' (Some ())))
          \<lparr>Width := 1,
           tokens := [\<lparr>Typ = TokenError,
                        Val = ''unexpected character '' @ [CHR 0x27, CHR ''#'', CHR 0x27],
                        Pos = 0\<rparr>]\<rparr>)
     = Some (Inr ([\<lparr>Typ = TokenError,
                     Val = ''unexpected character '' @ [CHR 0x27, CHR ''#'', CHR 0x27], Pos = 0\<rparr>,
                   \<lparr>Typ = TokenError,
                     Val = ''unexpected character '' @ [CHR 0x27, CHR ''#'', CHR 0x27], Pos = 0\<rparr>],
                  (lexer (NewLexer ''t'' ''#cd'' None))\<lparr>Width := 1\<rparr>))"
  by code_simp

text \<open>
  The error scenario of the specification, with the consumer alone moving: there the
  error token is delivered once.
\<close>

lemma scenario_error:
  "map_option (map_sum id fst)
     (NextTokens 2 (lexIdent (\<lambda>format r. take 21 format @ [CHR 0x27, chr r, CHR 0x27]))
        (lexer (NewLexer ''t'' ''ab#cd'' (Some ()))))
   = Some (Inr [\<lparr>Typ = 1, Val = ''ab'', Pos = 0\<rparr>,
                \<lparr>Typ = -2, Val = ''unexpected character '' @ [CHR 0x27, CHR ''#'', CHR 0x27],
                  Pos = 2\<rparr>])"
  by code_simp

text \<open>
  An execution that is not a schedule. On the input \<open>ab\<close> the background task runs
  the state function up to the send of \<open>Emit\<close> and is held there, before
  \<open>l.Start = l.Pos\<close>. The consumer's first call receives the token \<open>a\<close>; its second
  call finds the buffer empty and runs the state function itself, from the old
  \<open>Start\<close>: the token it delivers repeats the text already delivered.
\<close>

lemma Emit_statements:
  "Emit t l = (case Emit_send t l of Inl e \<Rightarrow> Inl e | Inr l' \<Rightarrow> Inr (l'\<lparr>Start := Lexer.Pos l'\<rparr>))"
  by (simp add: Emit_def Emit_send_def)

lemma overlapping_invocations_repeat_text:
  "calls [OpPeek, OpNext] (lexer (NewLexer ''t'' ''ab'' (Some ())))
     = Inr ((lexer (NewLexer ''t'' ''ab'' (Some ())))\<lparr>Width := 1, Pos := 1\<rparr>) \<and>
   Emit_send 2 ((lexer (NewLexer ''t'' ''ab'' (Some ())))\<lparr>Width := 1, Pos := 1\<rparr>)
     = Inr ((lexer (NewLexer ''t'' ''ab'' (Some ())))
              \<lparr>Width := 1, Pos := 1, tokens := [\<lparr>Typ = 2, Val = ''a'', Pos = 0\<rparr>]\<rparr>) \<and>
   map_option (map_sum id fst)
     (NextTokens 2 (lexExpr True)
        ((lexer (NewLexer ''t'' ''ab'' (Some ())))
           \<lparr>Width := 1, Pos := 1, tokens := [\<lparr>Typ = 2, Val = ''a'', Pos = 0\<rparr>]\<rparr>))
     = Some (Inr [\<lparr>Typ = 2, Val = ''a'', Pos = 0\<rparr>, \<lparr>Typ = 2, Val = ''ab'', Pos = 0\<rparr>])"
  by code_simp

section \<open>The cursor invariant\<close>

lemma Next_cursor_ok:
  assumes "cursor_ok l"
  shows "\<exists>r l'. Next l = Inr (r, l') \<and> cursor_ok l' \<and> cursor_ok (Backup l')"
proof (cases "Lexer.Pos l < int (length (input l))")
  case False
  then have "Next l = Inr (EOF, l\<lparr>Width := 0\<rparr>)"
    by (simp add: Next_at_end)
  moreover have "cursor_ok (l\<lparr>Width := 0\<rparr>)" "cursor_ok (Backup (l\<lparr>Width := 0\<rparr>))"
    using assms by (simp_all add: cursor_ok_def Backup_def)
  ultimately show ?thesis by blast
next
  case True
  from assms have p: "0 \<le> Lexer.Pos l"
    by (simp add: cursor_ok_def)
  let ?w = "snd (decode_at l)"
  let ?l' = "l\<lparr>Width := ?w, Pos := Lexer.Pos l + ?w\<rparr>"
  have "Next l = Inr (fst (decode_at l), ?l')"
    using p True by (rule Next_inside)
  moreover have "cursor_ok ?l'" "cursor_ok (Backup ?l')"
    using assms decode_at_width [OF p True] by (simp_all add: cursor_ok_def Backup_def)
  ultimately show ?thesis by blast
qed

lemma call_cursor_ok:
  assumes "cursor_ok l" and "c \<noteq> OpBackup"
  shows "case call c l of Inr l' \<Rightarrow> cursor_ok l' | Inl e \<Rightarrow> e = SendBlocked"
proof (cases c)
  case OpNext
  with Next_cursor_ok [OF assms(1)] show ?thesis by auto
next
  case OpBackup
  with assms(2) show ?thesis by simp
next
  case OpPeek
  with Next_cursor_ok [OF assms(1)] show ?thesis by (auto simp: Peek_def)
next
  case (OpAccept valid)
  with Next_cursor_ok [OF assms(1)] show ?thesis by (auto simp: Accept_def)
next
  case (OpAcceptRun valid)
  from assms(1) have p: "0 \<le> Lexer.Pos l" "Lexer.Pos l \<le> int (length (input l))"
    by (simp_all add: cursor_ok_def)
  from AcceptRun_result [OF p(1), of valid]
  obtain p' w where "AcceptRun valid l = Inr (l\<lparr>Width := w, Pos := p'\<rparr>)"
    and "Lexer.Pos l \<le> p'" and "p' \<le> int (length (input l))"
    using p(2) by blast
  with assms(1) OpAcceptRun show ?thesis
    by (simp add: cursor_ok_def)
next
  case OpIgnore
  with assms(1) show ?thesis by (simp add: Ignore_def cursor_ok_def)
next
  case (OpEmit t)
  with assms(1) show ?thesis
    by (auto simp: Emit_def send_def cursor_ok_def slice_ok_def)
next
  case (OpErrorf msg)
  with assms(1) show ?thesis
    by (auto simp: Errorf_def send_def cursor_ok_def)
qed

lemma calls_cursor_ok:
  assumes "cursor_ok l" and "b \<longrightarrow> cursor_ok (Backup l)" and "permitted b cs"
  shows "case calls cs l of Inr l' \<Rightarrow> cursor_ok l' | Inl e \<Rightarrow> e = SendBlocked"
  using assms
proof (induction cs arbitrary: b l)
  case Nil
  then show ?case by simp
next
  case (Cons c cs)
  show ?case
  proof (cases "c = OpBackup")
    case True
    with Cons.prems have "cursor_ok (Backup l)" and "permitted False cs"
      by simp_all
    with Cons.IH [of "Backup l" False] True show ?thesis
      by simp
  next
    case notBackup: False
    show ?thesis
    proof (cases "c = OpNext")
      case True
      from Next_cursor_ok [OF Cons.prems(1)]
      obtain r l' where "Next l = Inr (r, l')" "cursor_ok l'" "cursor_ok (Backup l')"
        by blast
      moreover from True Cons.prems have "permitted True cs"
        by simp
      ultimately show ?thesis
        using Cons.IH [of l' True] True by simp
    next
      case False
      with notBackup Cons.prems(3) have perm: "permitted False cs"
        by (cases c) simp_all
      from call_cursor_ok [OF Cons.prems(1) notBackup]
      show ?thesis
      proof (cases "call c l")
        case (Inl e)
        with \<open>case call c l of Inr l' \<Rightarrow> cursor_ok l' | Inl e \<Rightarrow> e = SendBlocked\<close>
        show ?thesis by simp
      next
        case (Inr l')
        with \<open>case call c l of Inr l' \<Rightarrow> cursor_ok l' | Inl e \<Rightarrow> e = SendBlocked\<close>
        have "cursor_ok l'" by simp
        with Cons.IH [of l' False] perm Inr show ?thesis
          by simp
      qed
    qed
  qed
qed

lemma invocation_cursor_ok:
  assumes "calls_only (permitted False) g" and "g q l = Inr (st, l')" and "cursor_ok l"
  shows "cursor_ok l'"
proof -
  from assms(1,2) obtain cs where "permitted False cs" and "calls cs l = Inr l'"
    unfolding calls_only_def by blast
  with calls_cursor_ok [of l False cs] assms(3) show ?thesis
    by simp
qed

lemma NextToken_pass_cursor_ok:
  assumes "NextToken_pass g l = Inr (received, l')" and "calls_only (permitted False) g"
    and "cursor_ok l"
  shows "cursor_ok l'"
proof (cases "tokens l")
  case (Cons t rest)
  with assms(1) have "l' = l\<lparr>tokens := rest, lastPos := Token.Pos t\<rparr>"
    by (simp add: NextToken_pass_def)
  with assms(3) show ?thesis
    by (simp add: cursor_ok_def)
next
  case Nil
  with assms(1) obtain q st l1 where "g q l = Inr (st, l1)" and l': "l' = l1\<lparr>state := st\<rparr>"
    by (auto simp: NextToken_pass_def split: option.splits sum.splits)
  from invocation_cursor_ok [OF assms(2) this(1) assms(3)] l' show ?thesis
    by (simp add: cursor_ok_def)
qed

lemma run_step_cursor_ok:
  assumes "run_step g p = Inr p'" and "calls_only (permitted False) g"
    and "cursor_ok (lexer p)"
  shows "cursor_ok (lexer p')"
proof (cases "task p")
  case Starting
  with assms(1,3) show ?thesis
    by (auto simp: run_step_def)
next
  case (Looping q)
  with assms(1) obtain st where "g q (lexer p) = Inr (st, lexer p')"
    by (auto simp: run_step_def split: sum.splits)
  from invocation_cursor_ok [OF assms(2) this assms(3)] show ?thesis .
next
  case Ended
  with assms(1,3) show ?thesis
    by (auto simp: run_step_def)
qed

lemma scan_cursor_ok:
  assumes "scan g ds p = Inr (ts, p')" and "calls_only (permitted False) g"
    and "cursor_ok (lexer p)"
  shows "cursor_ok (lexer p')"
  using assms
proof (induction ds arbitrary: p ts)
  case Nil
  then show ?case by simp
next
  case (Cons d ds)
  show ?case
  proof (cases d)
    case Background
    with Cons.prems(1) obtain p1 where step: "run_step g p = Inr p1"
      and rest: "scan g ds p1 = Inr (ts, p')"
      by (auto split: sum.splits)
    from run_step_cursor_ok [OF step Cons.prems(2,3)] have "cursor_ok (lexer p1)" .
    from Cons.IH [OF rest Cons.prems(2) this] show ?thesis .
  next
    case Consumer
    with Cons.prems(1) obtain received l1 ts1
      where pass: "NextToken_pass g (lexer p) = Inr (received, l1)"
        and rest: "scan g ds (p\<lparr>lexer := l1\<rparr>) = Inr (ts1, p')"
      by (auto split: sum.splits)
    from NextToken_pass_cursor_ok [OF pass Cons.prems(2,3)]
    have "cursor_ok (lexer (p\<lparr>lexer := l1\<rparr>))"
      by simp
    from Cons.IH [OF rest Cons.prems(2) this] show ?thesis .
  qed
qed

text \<open>
  The example grammar acts through calls only, within the backtracking protocol, and
  without \<open>Ignore\<close> and \<open>Errorf\<close> when it keeps the spaces.
\<close>

lemma lexExpr_calls:
  assumes "lexExpr keep q l = Inr (st, l')"
  shows "\<exists>cs. permitted False cs \<and> (keep \<longrightarrow> list_all keeps_text cs) \<and> calls cs l = Inr l'"
proof -
  from assms obtain r l1 where pk: "Peek l = Inr (r, l1)"
    by (auto simp: lexExpr_def split: sum.splits)
  show ?thesis
  proof (cases "r = EOF")
    case True
    with assms pk have "Emit TokenEOF l1 = Inr l'"
      by (auto simp: lexExpr_def split: sum.splits)
    with pk have "calls [OpPeek, OpEmit TokenEOF] l = Inr l'"
      by simp
    moreover have "permitted False [OpPeek, OpEmit TokenEOF]"
      "list_all keeps_text [OpPeek, OpEmit TokenEOF]"
      by simp_all
    ultimately show ?thesis by blast
  next
    case notEOF: False
    show ?thesis
    proof (cases "0 \<le> IndexRune ''0123456789'' r")
      case True
      with assms pk notEOF obtain l2 where "AcceptRun ''0123456789'' l1 = Inr l2"
        and "Emit 1 l2 = Inr l'"
        by (auto simp: lexExpr_def split: sum.splits)
      with pk have "calls [OpPeek, OpAcceptRun ''0123456789'', OpEmit 1] l = Inr l'"
        by simp
      moreover have "permitted False [OpPeek, OpAcceptRun ''0123456789'', OpEmit 1]"
        "list_all keeps_text [OpPeek, OpAcceptRun ''0123456789'', OpEmit 1]"
        by simp_all
      ultimately show ?thesis by blast
    next
      case False
      with assms pk notEOF obtain r' l2 where nx: "Next l1 = Inr (r', l2)"
        by (auto simp: lexExpr_def split: sum.splits)
      show ?thesis
      proof (cases "r = 32 \<and> \<not> keep")
        case True
        with assms pk notEOF False nx have "l' = Ignore l2"
          by (auto simp: lexExpr_def)
        with pk nx have "calls [OpPeek, OpNext, OpIgnore] l = Inr l'"
          by simp
        moreover have "permitted False [OpPeek, OpNext, OpIgnore]"
          by simp
        ultimately show ?thesis
          using True by blast
      next
        case other: False
        let ?t = "if r = 32 then 3 else 2"
        from assms pk notEOF False nx other have "Emit ?t l2 = Inr l'"
          by (auto simp: lexExpr_def split: sum.splits)
        with pk nx have "calls [OpPeek, OpNext, OpEmit ?t] l = Inr l'"
          by simp
        moreover have "permitted False [OpPeek, OpNext, OpEmit ?t]"
          "list_all keeps_text [OpPeek, OpNext, OpEmit ?t]"
          by simp_all
        ultimately show ?thesis by blast
      qed
    qed
  qed
qed

lemma lexExpr_in_protocol: "calls_only (permitted False) (lexExpr keep)"
  unfolding calls_only_def using lexExpr_calls by blast


text \<open>
  C4, as the code has it. \<open>0 \<le> Start \<le> Pos \<le> len(input)\<close> holds in the lexer
  that \<open>NewLexer\<close> returns. Every sequence of calls of \<open>Next\<close>, \<open>Backup\<close>,
  \<open>Peek\<close>, \<open>Accept\<close>, \<open>AcceptRun\<close>, \<open>Ignore\<close>, \<open>Emit\<close> and \<open>Errorf\<close> that
  one driver makes on its own, with \<open>Backup\<close> only directly after a \<open>Next\<close>,
  preserves it, and no slice expression panics on the way: such a sequence can only stop
  at a send on the full channel. So it holds after every move of a scan in which the
  two drivers take turns (a schedule), whichever driver makes the move, when the state
  functions of the grammar call \<open>Backup\<close> only directly after \<open>Next\<close>.
\<close>

theorem cursor_invariant:
  "cursor_ok (lexer (NewLexer nm inp st)) \<and>
   (cursor_ok l \<and> permitted False cs \<longrightarrow>
      (case calls cs l of Inr l' \<Rightarrow> cursor_ok l' | Inl e \<Rightarrow> e = SendBlocked)) \<and>
   (cursor_ok (lexer p) \<and> calls_only (permitted False) g \<and> scan g ds p = Inr (ts, p') \<longrightarrow>
      cursor_ok (lexer p'))"
proof (intro conjI impI)
  show "cursor_ok (lexer (NewLexer nm inp st))"
    by (simp add: cursor_ok_def NewLexer_def)
next
  assume "cursor_ok l \<and> permitted False cs"
  then show "case calls cs l of Inr l' \<Rightarrow> cursor_ok l' | Inl e \<Rightarrow> e = SendBlocked"
    using calls_cursor_ok [of l False cs] by simp
next
  assume "cursor_ok (lexer p) \<and> calls_only (permitted False) g \<and> scan g ds p = Inr (ts, p')"
  then show "cursor_ok (lexer p')"
    using scan_cursor_ok [of g ds p ts p'] by simp
qed

theorem cursor_invariant_witness:
  "cursor_ok (lexer (NewLexer ''t'' ''1 + 23'' (Some ()))) \<and>
   permitted False [OpNext, OpBackup, OpAcceptRun ''0123456789'', OpEmit 1, OpNext, OpIgnore] \<and>
   calls [OpNext, OpBackup, OpAcceptRun ''0123456789'', OpEmit 1, OpNext, OpIgnore]
       (lexer (NewLexer ''t'' ''1 + 23'' (Some ())))
     = Inr ((lexer (NewLexer ''t'' ''1 + 23'' (Some ())))
              \<lparr>Start := 2, Pos := 2, Width := 1, tokens := [\<lparr>Typ = 1, Val = ''1'', Pos = 0\<rparr>]\<rparr>) \<and>
   cursor_ok ((lexer (NewLexer ''t'' ''1 + 23'' (Some ())))
              \<lparr>Start := 2, Pos := 2, Width := 1, tokens := [\<lparr>Typ = 1, Val = ''1'', Pos = 0\<rparr>]\<rparr>) \<and>
   scan (lexExpr False) [Background, Background, Consumer, Consumer]
       (NewLexer ''t'' ''1 + 23'' (Some ()))
     = Inr ([\<lparr>Typ = 1, Val = ''1'', Pos = 0\<rparr>],
            \<lparr>lexer = (lexer (NewLexer ''t'' ''1 + 23'' (Some ())))
                        \<lparr>Start := 2, Pos := 2, Width := 1\<rparr>,
             task = Looping ()\<rparr>) \<and>
   cursor_ok ((lexer (NewLexer ''t'' ''1 + 23'' (Some ())))\<lparr>Start := 2, Pos := 2, Width := 1\<rparr>)"
proof -
  let ?p = "NewLexer ''t'' ''1 + 23'' (Some ())"
  let ?l = "lexer ?p"
  let ?cs = "[OpNext, OpBackup, OpAcceptRun ''0123456789'', OpEmit 1, OpNext, OpIgnore]"
  let ?lA = "?l\<lparr>Start := 2, Pos := 2, Width := 1, tokens := [\<lparr>Typ = 1, Val = ''1'', Pos = 0\<rparr>]\<rparr>"
  let ?ds = "[Background, Background, Consumer, Consumer]"
  let ?t = "\<lparr>Typ = 1, Val = ''1'', Pos = 0\<rparr>"
  let ?lB = "?l\<lparr>Start := 2, Pos := 2, Width := 1\<rparr>"
  let ?pB = "\<lparr>lexer = ?lB, task = Looping ()\<rparr>"
  note inv = cursor_invariant [of "''t''" "''1 + 23''" "Some ()" ?l ?cs ?p "lexExpr False" ?ds
      "[?t]" ?pB]
  have perm: "permitted False ?cs"
    by simp
  have run: "calls ?cs ?l = Inr ?lA"
    by code_simp
  have sc: "scan (lexExpr False) ?ds ?p = Inr ([?t], ?pB)"
    by code_simp
  from inv have ok0: "cursor_ok ?l"
    by blast
  with inv perm run have "cursor_ok ?lA"
    by simp
  moreover from inv ok0 sc lexExpr_in_protocol [of False] have "cursor_ok (lexer ?pB)"
    by blast
  then have "cursor_ok ?lB"
    by simp
  ultimately show ?thesis
    using ok0 perm run sc by blast
qed

text \<open>
  C4 does not hold as the specification words it: \<open>Backup\<close> does not preserve the
  invariant, and what it breaks stays broken. After \<open>Next\<close> and \<open>Emit\<close> on the
  input \<open>ab\<close> the invariant holds with \<open>Start = Pos = 1\<close>; the one \<open>Backup\<close> that
  the call of \<open>Next\<close> allows then leaves \<open>Pos = 0\<close> below \<open>Start = 1\<close>, and an
  \<open>Emit\<close> from there panics on its slice expression. A \<open>Backup\<close> after \<open>Peek\<close>
  leaves \<open>Pos = -1\<close>. The three calls \<open>Next\<close>, \<open>Emit\<close>, \<open>Backup\<close> are
  also what the lexer sees when one driver calls \<open>Next\<close> and \<open>Backup\<close> and the
  other calls \<open>Emit\<close> in between.
\<close>

theorem Backup_leaves_Pos_below_Start:
  "calls [OpNext, OpEmit 1] (lexer (NewLexer ''t'' ''ab'' (Some ())))
     = Inr ((lexer (NewLexer ''t'' ''ab'' (Some ())))
              \<lparr>Start := 1, Pos := 1, Width := 1, tokens := [\<lparr>Typ = 1, Val = ''a'', Pos = 0\<rparr>]\<rparr>) \<and>
   cursor_ok ((lexer (NewLexer ''t'' ''ab'' (Some ())))
              \<lparr>Start := 1, Pos := 1, Width := 1, tokens := [\<lparr>Typ = 1, Val = ''a'', Pos = 0\<rparr>]\<rparr>) \<and>
   Backup ((lexer (NewLexer ''t'' ''ab'' (Some ())))
              \<lparr>Start := 1, Pos := 1, Width := 1, tokens := [\<lparr>Typ = 1, Val = ''a'', Pos = 0\<rparr>]\<rparr>)
     = (lexer (NewLexer ''t'' ''ab'' (Some ())))
              \<lparr>Start := 1, Pos := 0, Width := 1, tokens := [\<lparr>Typ = 1, Val = ''a'', Pos = 0\<rparr>]\<rparr> \<and>
   \<not> cursor_ok ((lexer (NewLexer ''t'' ''ab'' (Some ())))
              \<lparr>Start := 1, Pos := 0, Width := 1, tokens := [\<lparr>Typ = 1, Val = ''a'', Pos = 0\<rparr>]\<rparr>) \<and>
   calls [OpNext, OpEmit 1, OpBackup, OpEmit 2] (lexer (NewLexer ''t'' ''ab'' (Some ())))
     = Inl SliceOutOfRange \<and>
   calls [OpPeek, OpBackup] (lexer (NewLexer ''t'' ''ab'' (Some ())))
     = Inr ((lexer (NewLexer ''t'' ''ab'' (Some ())))\<lparr>Pos := -1, Width := 1\<rparr>) \<and>
   \<not> cursor_ok ((lexer (NewLexer ''t'' ''ab'' (Some ())))\<lparr>Pos := -1, Width := 1\<rparr>)"
  by code_simp

section \<open>The text of the tokens\<close>

lemma text_of_append: "text_of (xs @ ys) = text_of xs @ text_of ys"
  by (simp add: text_of_def)


















end
